theory Spec2Isabelle
  imports Complex_Main "HOL-Library.Sublist" "HOL-Library.Log_Nat" "HOL-Library.AList"
begin

section \<open>Strings and numbers of the host language\<close>

text \<open>
  Source strings are modelled as \<open>string\<close> (a list of bytes, UTF-8 for anything beyond
  ASCII). \<open>toLowerCase\<close> maps the ASCII capitals to small letters and leaves every other
  byte alone: the vocabulary, the section words and the regular expressions of the
  program are all ASCII, and documents are taken to hold no character outside ASCII
  whose lower case is an ASCII letter.
\<close>

definition toLowerChar :: "char \<Rightarrow> char" where
  "toLowerChar c =
     (let n = (of_char c :: nat) in if 65 \<le> n \<and> n \<le> 90 then char_of (n + 32) else c)"

definition toLowerCase :: "string \<Rightarrow> string" where
  "toLowerCase s = map toLowerChar s"

text \<open>\<open>s.includes(sub)\<close>: \<open>sub\<close> occurs in \<open>s\<close> as a contiguous block.\<close>

definition str_includes :: "string \<Rightarrow> string \<Rightarrow> bool" where
  "str_includes s sub = sublist sub s"

text \<open>\<open>parts.join(sep)\<close>.\<close>

fun join :: "string list \<Rightarrow> string \<Rightarrow> string" where
  "join [] sep = []"
| "join [x] sep = x"
| "join (x # y # ys) sep = x @ sep @ join (y # ys) sep"

text \<open>\<open>s.split(c)\<close> for a one-character separator: the empty string gives one empty piece.\<close>

fun split_str :: "string \<Rightarrow> char \<Rightarrow> string list" where
  "split_str [] c = [[]]"
| "split_str (x # xs) c =
     (if x = c then [] # split_str xs c
      else (case split_str xs c of [] \<Rightarrow> [[x]] | w # ws \<Rightarrow> (x # w) # ws))"

definition isDigit :: "char \<Rightarrow> bool" where
  "isDigit c = (let n = (of_char c :: nat) in 48 \<le> n \<and> n \<le> 57)"

definition isUpper :: "char \<Rightarrow> bool" where
  "isUpper c = (let n = (of_char c :: nat) in 65 \<le> n \<and> n \<le> 90)"

definition isLower :: "char \<Rightarrow> bool" where
  "isLower c = (let n = (of_char c :: nat) in 97 \<le> n \<and> n \<le> 122)"

text \<open>
  \<open>content.match(/\d+/g)\<close> returns the maximal runs of digits, left to right; only
  their number is used. The flag says whether the scan is inside a run.
\<close>

fun countDigitRuns :: "bool \<Rightarrow> string \<Rightarrow> nat" where
  "countDigitRuns inRun [] = 0"
| "countDigitRuns inRun (c # cs) =
     (if isDigit c then (if inRun then 0 else 1) + countDigitRuns True cs
      else countDigitRuns False cs)"

definition matchDigits :: "string \<Rightarrow> nat" where
  "matchDigits content = countDigitRuns False content"

text \<open>
  \<open>/[A-Z][a-z]+ \d{4}/\<close> anchored at the head of the string: a capital, a non-empty run
  of small letters, one space, four digits. The run is followed by a space, which is
  not a small letter, so only the longest run can be followed by the rest of the
  pattern.
\<close>

fun matchDateAt :: "string \<Rightarrow> bool" where
  "matchDateAt [] = False"
| "matchDateAt (c # cs) =
     (isUpper c \<and> takeWhile isLower cs \<noteq> [] \<and>
      (case dropWhile isLower cs of
         s # d1 # d2 # d3 # d4 # rest \<Rightarrow>
           s = CHR '' '' \<and> isDigit d1 \<and> isDigit d2 \<and> isDigit d3 \<and> isDigit d4
       | _ \<Rightarrow> False))"

text \<open>\<open>content.match(/[A-Z][a-z]+ \d{4}/g)\<close> is truthy when the pattern matches somewhere.\<close>

fun matchDate :: "string \<Rightarrow> bool" where
  "matchDate [] = False"
| "matchDate (c # cs) = (matchDateAt (c # cs) \<or> matchDate cs)"

text \<open>Decimal rendering of an integer inside a template string.\<close>

fun showNat :: "nat \<Rightarrow> string" where
  "showNat n =
     (if n < 10 then [char_of (48 + n)]
      else showNat (n div 10) @ [char_of (48 + n mod 10)])"

definition showInt :: "int \<Rightarrow> string" where
  "showInt i = (if i < 0 then ''-'' @ showNat (nat (- i)) else showNat (nat i))"

text \<open>\<open>Math.round\<close>: the nearest integer, a tie going up.\<close>

definition Math_round :: "rat \<Rightarrow> int" where
  "Math_round x = \<lfloor>x + 1 / 2\<rfloor>"

subsection \<open>Double-precision arithmetic\<close>

text \<open>
  Numbers of the source are IEEE-754 binary64 values. A positive rational \<open>q\<close> in the
  normal range lies in one binade, \<open>2 powi e \<le> q < 2 powi (e + 1)\<close>; the double nearest
  to it is the multiple of \<open>2 powi (e - 52)\<close> nearest to \<open>q\<close>, a tie going to the even
  multiple. Division and multiplication return the double nearest to the exact
  result. Overflow and subnormal numbers are outside this model; the scores computed
  below stay far away from both.
\<close>

definition binade :: "rat \<Rightarrow> int" where
  "binade q =
     (let d = bitlen (fst (quotient_of q)) - bitlen (snd (quotient_of q))
      in if 2 powi d \<le> q then d else d - 1)"

definition roundHalfEven :: "rat \<Rightarrow> int" where
  "roundHalfEven x =
     (let f = \<lfloor>x\<rfloor>; r = x - of_int f
      in if r < 1 / 2 then f else if 1 / 2 < r then f + 1 else if even f then f else f + 1)"

definition toDouble :: "rat \<Rightarrow> rat" where
  "toDouble q =
     (if q \<le> 0 then 0
      else let e = binade q - 52 in of_int (roundHalfEven (q / (2 powi e))) * (2 powi e))"

definition double_div :: "rat \<Rightarrow> rat \<Rightarrow> rat" where
  "double_div a b = toDouble (a / b)"

definition double_mul :: "rat \<Rightarrow> rat \<Rightarrow> rat" where
  "double_mul a b = toDouble (a * b)"

section \<open>Errors (utils/errorHandler.ts)\<close>

text \<open>
  \<open>Error\<close> and \<open>TypeError\<close> are the language's own errors; the others are the classes of
  the program, each with its message (\<open>ScrapingError\<close> also with the optional site).
\<close>

datatype error =
    Error string
  | TypeError string
  | AppError string
  | ValidationError string
  | RateLimitError string
  | ScrapingError string "string option"

section \<open>Configuration (config/environment.ts)\<close>

text \<open>\<open>config.rateLimits\<close>: operation name, points, duration in seconds.\<close>

definition config_rateLimits :: "(string \<times> int \<times> int) list" where
  "config_rateLimits =
     [(''jobSearch'', 10, 60), (''cvTailoring'', 5, 60), (''coverLetterGeneration'', 10, 60)]"

definition config_cache_jobSearchTTL :: int where
  "config_cache_jobSearchTTL = 300"

section \<open>Rate limiter (services/rateLimiter.ts)\<close>

text \<open>
  Modelled from the spec: the bucket of \<open>RateLimiterMemory\<close>, the limiter class of the
  third-party package rate-limiter-flexible, which the service wraps and which is not
  part of the repository. Following section 4.1 of the specification, a bucket records
  the points consumed in its window and the time the window started, in milliseconds.
\<close>

record bucket =
  consumedPoints :: int
  windowStart :: int

text \<open>
  Modelled from the spec: a \<open>RateLimiterMemory\<close> object (not part of the repository), a
  budget of \<open>points\<close> per window of \<open>duration\<close> seconds and one bucket per identifier.
\<close>

record limiter =
  points :: int
  duration :: int
  storage :: "(string \<times> bucket) list"

text \<open>
  Modelled from the spec: the bucket of an identifier while its window is open (the
  limiter's store is not part of the repository). A window that has run out counts as
  no bucket: the next call starts afresh.
\<close>

definition openBucket :: "limiter \<Rightarrow> string \<Rightarrow> int \<Rightarrow> bucket option" where
  "openBucket lmt ident now =
     (case map_of (storage lmt) ident of
        None \<Rightarrow> None
      | Some b \<Rightarrow> if now < windowStart b + duration lmt * 1000 then Some b else None)"

text \<open>
  Modelled from the spec: \<open>RateLimiterMemory.consume\<close> (not part of the repository). It
  takes one point; when the bucket is exhausted it fails with the time left until the
  refill, window start plus duration minus now, in milliseconds (\<open>msBeforeNext\<close>).
\<close>

definition RateLimiterMemory_consume ::
    "limiter \<Rightarrow> string \<Rightarrow> int \<Rightarrow> (int + unit) \<times> limiter" where
  "RateLimiterMemory_consume lmt ident now =
     (let b = (case openBucket lmt ident now of
                 None \<Rightarrow> \<lparr>consumedPoints = 0, windowStart = now\<rparr>
               | Some b0 \<Rightarrow> b0)
      in if points lmt \<le> consumedPoints b
         then (Inl (windowStart b + duration lmt * 1000 - now),
               lmt\<lparr>storage := AList.update ident b (storage lmt)\<rparr>)
         else (Inr (),
               lmt\<lparr>storage :=
                     AList.update ident (b\<lparr>consumedPoints := consumedPoints b + 1\<rparr>)
                       (storage lmt)\<rparr>))"

text \<open>
  Modelled from the spec: \<open>RateLimiterMemory.get\<close> (not part of the repository), the
  remaining points of an open bucket, and nothing when the identifier has no open
  bucket.
\<close>

definition RateLimiterMemory_get :: "limiter \<Rightarrow> string \<Rightarrow> int \<Rightarrow> int option" where
  "RateLimiterMemory_get lmt ident now =
     (case openBucket lmt ident now of
        None \<Rightarrow> None
      | Some b \<Rightarrow> Some (max (points lmt - consumedPoints b) 0))"

record RateLimiterService =
  limiters :: "(string \<times> limiter) list"

text \<open>The constructor: one limiter per entry of the configuration.\<close>

definition new_RateLimiterService :: "(string \<times> int \<times> int) list \<Rightarrow> RateLimiterService" where
  "new_RateLimiterService cfg =
     \<lparr>limiters =
        fold (\<lambda>(key, p, d). AList.update key \<lparr>points = p, duration = d, storage = []\<rparr>)
          cfg []\<rparr>"

text \<open>The message of the \<open>RateLimitError\<close>, a template string around the seconds.\<close>

definition retryMessage :: "int \<Rightarrow> string" where
  "retryMessage secs = ''Rate limit exceeded. Try again in '' @ showInt secs @ '' seconds.''"

text \<open>\<open>Math.round(msBeforeNext / 1000) || 1\<close>: a zero is falsy and gives 1.\<close>

definition retrySecs :: "int \<Rightarrow> int" where
  "retrySecs msBeforeNext =
     (let r = Math_round (of_int msBeforeNext / 1000) in if r = 0 then 1 else r)"

text \<open>
  \<open>checkLimit\<close>. The clock is an argument. \<open>Math.round(msBeforeNext / 1000) || 1\<close>: the
  quotient of a whole number of milliseconds by 1000 is rounded to a double before
  \<open>Math.round\<close> sees it, which never moves it across a half-integer (every half-integer
  in range is itself a double), so the exact quotient is rounded here.
\<close>

definition checkLimit ::
    "RateLimiterService \<Rightarrow> string \<Rightarrow> string \<Rightarrow> int \<Rightarrow> (error + unit) \<times> RateLimiterService" where
  "checkLimit svc operation identifier now =
     (case map_of (limiters svc) operation of
        None \<Rightarrow>
          (Inl (Error (''Rate limiter not configured for operation: '' @ operation)), svc)
      | Some lmt \<Rightarrow>
          (case RateLimiterMemory_consume lmt identifier now of
             (Inr u, lmt') \<Rightarrow>
               (Inr (), svc\<lparr>limiters := AList.update operation lmt' (limiters svc)\<rparr>)
           | (Inl msBeforeNext, lmt') \<Rightarrow>
               (let secs = retrySecs msBeforeNext
                in (Inl (RateLimitError (retryMessage secs)),
                    svc\<lparr>limiters := AList.update operation lmt' (limiters svc)\<rparr>))))"

text \<open>\<open>getRemainingPoints\<close>; \<open>cfg\<close> is \<open>config.rateLimits\<close>.\<close>

definition getRemainingPoints ::
    "(string \<times> int \<times> int) list \<Rightarrow> RateLimiterService \<Rightarrow> string \<Rightarrow> string \<Rightarrow> int \<Rightarrow> int" where
  "getRemainingPoints cfg svc operation identifier now =
     (case map_of (limiters svc) operation of
        None \<Rightarrow> 0
      | Some lmt \<Rightarrow>
          (case RateLimiterMemory_get lmt identifier now of
             Some remainingPoints \<Rightarrow> remainingPoints
           | None \<Rightarrow> (case map_of cfg operation of Some (p, d) \<Rightarrow> p | None \<Rightarrow> 0)))"

text \<open>A history of calls, each with its operation, identifier and clock reading.\<close>

fun checkLimit_seq ::
    "RateLimiterService \<Rightarrow> (string \<times> string \<times> int) list \<Rightarrow>
     (error + unit) list \<times> RateLimiterService" where
  "checkLimit_seq svc [] = ([], svc)"
| "checkLimit_seq svc ((operation, identifier, now) # calls) =
     (case checkLimit svc operation identifier now of
        (r, svc') \<Rightarrow>
          (case checkLimit_seq svc' calls of
             (rs, svc'') \<Rightarrow> (r # rs, svc'')))"

section \<open>Cache (services/cache.ts)\<close>

text \<open>
  The entries of the \<open>Map\<close> are kept as an association list in insertion order; times
  are milliseconds, and every \<open>Date.now()\<close> of the source is an argument.
\<close>

record 'v CacheItem =
  item_value :: 'v
  expiry :: int

record CacheStats =
  stat_keys :: int
  hits :: int
  misses :: int
  ksize :: int
  vsize :: int

record 'v BrowserCache =
  cache :: "(string \<times> 'v CacheItem) list"
  defaultTTL :: int
  stats :: CacheStats

text \<open>The constructor; \<open>options.stdTTL || 600\<close> with the option absent or zero gives 600.\<close>

definition new_BrowserCache :: "int option \<Rightarrow> 'v BrowserCache" where
  "new_BrowserCache stdTTL =
     \<lparr>cache = [],
      defaultTTL = (case stdTTL of None \<Rightarrow> 600 | Some t \<Rightarrow> if t = 0 then 600 else t) * 1000,
      stats = \<lparr>stat_keys = 0, hits = 0, misses = 0, ksize = 0, vsize = 0\<rparr>\<rparr>"

definition isExpired :: "'v CacheItem \<Rightarrow> int \<Rightarrow> bool" where
  "isExpired item now = (now > expiry item)"

text \<open>The periodic sweep: every entry past its expiry is deleted and counted off.\<close>

definition BrowserCache_cleanup :: "'v BrowserCache \<Rightarrow> int \<Rightarrow> 'v BrowserCache" where
  "BrowserCache_cleanup c now =
     c\<lparr>cache := filter (\<lambda>(k, item). \<not> now > expiry item) (cache c),
       stats := (stats c)\<lparr>stat_keys :=
         stat_keys (stats c) - int (length (filter (\<lambda>(k, item). now > expiry item) (cache c)))\<rparr>\<rparr>"

text \<open>
  \<open>set(key, value, ttl?)\<close>. The optional \<open>ttl\<close> is tested for truthiness: absent or zero,
  the default applies. Nothing in the body throws, so the result is always \<open>true\<close>.
\<close>

definition BrowserCache_set ::
    "'v BrowserCache \<Rightarrow> string \<Rightarrow> 'v \<Rightarrow> int option \<Rightarrow> int \<Rightarrow> bool \<times> 'v BrowserCache" where
  "BrowserCache_set c key v ttl now =
     (let expiryTime =
            now + (case ttl of None \<Rightarrow> defaultTTL c
                   | Some t \<Rightarrow> if t = 0 then defaultTTL c else t * 1000);
          item = \<lparr>item_value = v, expiry = expiryTime\<rparr>;
          wasPresent = (map_of (cache c) key \<noteq> None);
          c' = c\<lparr>cache := AList.update key item (cache c)\<rparr>
      in (True,
          if wasPresent then c'
          else c'\<lparr>stats := (stats c)\<lparr>stat_keys := stat_keys (stats c) + 1\<rparr>\<rparr>))"

text \<open>\<open>get(key)\<close>: \<open>None\<close> is \<open>undefined\<close>.\<close>

definition BrowserCache_get ::
    "'v BrowserCache \<Rightarrow> string \<Rightarrow> int \<Rightarrow> 'v option \<times> 'v BrowserCache" where
  "BrowserCache_get c key now =
     (case map_of (cache c) key of
        None \<Rightarrow> (None, c\<lparr>stats := (stats c)\<lparr>misses := misses (stats c) + 1\<rparr>\<rparr>)
      | Some item \<Rightarrow>
          if isExpired item now
          then (None,
                c\<lparr>cache := AList.delete key (cache c),
                  stats := (stats c)\<lparr>stat_keys := stat_keys (stats c) - 1,
                                     misses := misses (stats c) + 1\<rparr>\<rparr>)
          else (Some (item_value item),
                c\<lparr>stats := (stats c)\<lparr>hits := hits (stats c) + 1\<rparr>\<rparr>))"

definition BrowserCache_del :: "'v BrowserCache \<Rightarrow> string \<Rightarrow> int \<times> 'v BrowserCache" where
  "BrowserCache_del c key =
     (if map_of (cache c) key \<noteq> None
      then (1, c\<lparr>cache := AList.delete key (cache c),
                 stats := (stats c)\<lparr>stat_keys := stat_keys (stats c) - 1\<rparr>\<rparr>)
      else (0, c))"

definition BrowserCache_has ::
    "'v BrowserCache \<Rightarrow> string \<Rightarrow> int \<Rightarrow> bool \<times> 'v BrowserCache" where
  "BrowserCache_has c key now =
     (case map_of (cache c) key of
        None \<Rightarrow> (False, c)
      | Some item \<Rightarrow>
          if isExpired item now
          then (False,
                c\<lparr>cache := AList.delete key (cache c),
                  stats := (stats c)\<lparr>stat_keys := stat_keys (stats c) - 1\<rparr>\<rparr>)
          else (True, c))"

definition BrowserCache_flushAll :: "'v BrowserCache \<Rightarrow> 'v BrowserCache" where
  "BrowserCache_flushAll c = c\<lparr>cache := [], stats := (stats c)\<lparr>stat_keys := 0\<rparr>\<rparr>"

text \<open>
  \<open>CacheService\<close> owns one \<open>BrowserCache\<close> made with a standard TTL of 600 seconds and
  hands \<open>set\<close>, \<open>get\<close> and \<open>has\<close> through; the search wrappers build the key.
\<close>

definition new_CacheService :: "'v BrowserCache" where
  "new_CacheService = new_BrowserCache (Some 600)"

definition jobSearchKey :: "string \<Rightarrow> string \<Rightarrow> string" where
  "jobSearchKey query loc = ''job_search:'' @ query @ '':'' @ loc"

definition cacheJobSearch ::
    "'v BrowserCache \<Rightarrow> string \<Rightarrow> string \<Rightarrow> 'v \<Rightarrow> int \<Rightarrow> 'v BrowserCache" where
  "cacheJobSearch c query loc results now =
     snd (BrowserCache_set c (jobSearchKey query loc) results (Some config_cache_jobSearchTTL) now)"

definition getCachedJobSearch ::
    "'v BrowserCache \<Rightarrow> string \<Rightarrow> string \<Rightarrow> int \<Rightarrow> 'v option \<times> 'v BrowserCache" where
  "getCachedJobSearch c query loc now = BrowserCache_get c (jobSearchKey query loc) now"

section \<open>Job postings and the scraper (services/jobScraper.ts)\<close>

datatype job_source = seek | indeed | linkedin

datatype application_status = not_applied | applied | tailored | generating

record job =
  job_id :: string
  title :: string
  company :: string
  location :: string
  salary :: string
  description :: string
  requirements :: "string list"
  job_keywords :: "string list"
  url :: string
  datePosted :: string
  source :: job_source
  applicationStatus :: application_status
  matchScore :: int

text \<open>The key of \<open>removeDuplicates\<close>, a template string.\<close>

definition dedupKey :: "job \<Rightarrow> string" where
  "dedupKey j = toLowerCase (title j) @ ''_'' @ toLowerCase (company j)"

text \<open>The filter of \<open>removeDuplicates\<close> with its set of keys seen so far.\<close>

fun removeDuplicates_filter :: "string set \<Rightarrow> job list \<Rightarrow> job list" where
  "removeDuplicates_filter seen [] = []"
| "removeDuplicates_filter seen (j # js) =
     (if dedupKey j \<in> seen then removeDuplicates_filter seen js
      else j # removeDuplicates_filter (insert (dedupKey j) seen) js)"

definition removeDuplicates :: "job list \<Rightarrow> job list" where
  "removeDuplicates jobs = removeDuplicates_filter {} jobs"

text \<open>The outcome of one promise after \<open>Promise.allSettled\<close>.\<close>

datatype 'a settled = fulfilled 'a | rejected error

definition allSettled :: "(error + 'a) list \<Rightarrow> 'a settled list" where
  "allSettled ps = map (\<lambda>p. case p of Inl e \<Rightarrow> rejected e | Inr v \<Rightarrow> fulfilled v) ps"

text \<open>
  What the promise of a source fetcher can be fulfilled with. \<open>scrapeIndeed\<close> returns an
  array of postings; \<open>scrapeSeek\<close> returns what \<open>getJobDetails\<close> gave it, which is a
  posting or \<open>null\<close> (see below).
\<close>

datatype fetched = NullValue | JobValue job | JobArray "job list"

text \<open>
  \<open>results.forEach\<close>: a rejected result is only logged; for a fulfilled one,
  \<open>allJobs.push(...result.value)\<close> appends the postings of an array and throws a
  \<open>TypeError\<close> when the value is \<open>null\<close> or a single posting, neither of which can be
  spread. The first throw ends the iteration.
\<close>

fun collectJobs :: "job list \<Rightarrow> fetched settled list \<Rightarrow> error + job list" where
  "collectJobs allJobs [] = Inr allJobs"
| "collectJobs allJobs (fulfilled (JobArray v) # rs) = collectJobs (allJobs @ v) rs"
| "collectJobs allJobs (fulfilled NullValue # rs) = Inl (TypeError ''object null is not iterable'')"
| "collectJobs allJobs (fulfilled (JobValue j) # rs) = Inl (TypeError ''object is not iterable'')"
| "collectJobs allJobs (rejected e # rs) = collectJobs allJobs rs"

text \<open>
  \<open>enhanceJobsWithAI\<close>. \<open>ai\<close> is the outcome of \<open>aiService.extractJobKeywords\<close> for a
  description and a title; \<open>rnd i\<close> stands for the \<open>i\<close>-th posting's
  \<open>Math.floor(Math.random() * 40)\<close>, a whole number from 0 to 39. A posting whose
  keyword extraction fails is kept as it is.
\<close>

fun enhanceJobsWithAI ::
    "(string \<Rightarrow> string \<Rightarrow> error + string list) \<Rightarrow> (nat \<Rightarrow> nat) \<Rightarrow> nat \<Rightarrow> job list \<Rightarrow> job list" where
  "enhanceJobsWithAI ai rnd i [] = []"
| "enhanceJobsWithAI ai rnd i (j # js) =
     (case ai (description j) (title j) of
        Inr kws \<Rightarrow> j\<lparr>job_keywords := kws, matchScore := int (rnd i mod 40) + 60\<rparr>
      | Inl e \<Rightarrow> j)
     # enhanceJobsWithAI ai rnd (Suc i) js"

text \<open>
  What one call of \<open>scrapeJobs\<close> meets outside the process: the clock at the rate-limit
  check, at the cache probe and at the cache write, what happens to the request of
  \<open>scrapeSeek\<close>, the outcome of \<open>scrapeIndeed\<close> (its postings, or the \<open>ScrapingError\<close> it
  throws), the keyword service and the random numbers. The request of \<open>scrapeSeek\<close>
  either fails, or yields a page from which a list of postings is parsed; in the second
  case \<open>scrapeSeek\<close> goes on to \<open>getJobDetails\<close>, which calls \<open>scrapeJobs\<close> again, and that
  call meets an environment of its own. An environment is a finite tree, so the model
  describes the runs in which the chain of such calls comes to an end.
\<close>

datatype scrape_env =
    ScrapeEnv (now_limit: int) (now_probe: int) (now_store: int) (seekWorld: seek_world)
      (scrapeIndeed: "error + job list")
      (extractJobKeywords: "string \<Rightarrow> string \<Rightarrow> error + string list")
      (random40: "nat \<Rightarrow> nat")
and seek_world = SeekFails | SeekLists "job list" scrape_env

record services =
  rateLimiter :: RateLimiterService
  cacheService :: "job list BrowserCache"

text \<open>The \<open>cacheKey\<close> of \<open>scrapeJobs\<close>.\<close>

definition scrapeJobs_cacheKey :: "string list \<Rightarrow> string \<Rightarrow> string" where
  "scrapeJobs_cacheKey kws loc = join kws '','' @ '':'' @ loc"

text \<open>
  The class declares \<open>getJobDetails\<close> twice: first the per-listing detail fetch that
  takes an array of postings, later a method that takes a job id and returns a posting
  or \<open>null\<close>. The later declaration replaces the earlier one, so the call
  \<open>this.getJobDetails(jobs.slice(0, 10))\<close> in \<open>scrapeSeek\<close> runs the later method with an
  array in the place of the id. The four functions call each other:

  \<^item> \<open>scrapeJobs(keywords, location)\<close>: the rate-limit check (its error leaves the
    function as it is), the cache probe (any cached array, also an empty one, is truthy
    and is returned), then the \<open>try\<close> block, whose errors become the \<open>ScrapingError\<close> of
    the \<open>catch\<close> clause.
  \<^item> \<open>scrapeJobs_try\<close>, the body of the \<open>try\<close> block: both fetchers are started and
    settled, the fulfilled results are collected (which may throw), and the postings are
    deduplicated, enriched and cached.
  \<^item> \<open>scrapeSeek\<close>: a failed request becomes the \<open>ScrapingError\<close> of its \<open>catch\<close> clause;
    after a parsed page it returns what \<open>getJobDetails\<close> returns.
  \<^item> \<open>getJobDetails(jobId)\<close>: it calls \<open>scrapeJobs\<close> for software, developer, engineer
    in the default location and looks for the posting whose id is \<open>jobId\<close>; an error of
    the call is caught and gives \<open>null\<close>. The argument is a string by declaration
    (\<open>Inl\<close>) and an array of postings at the call in \<open>scrapeSeek\<close> (\<open>Inr\<close>); a string id
    is never strictly equal to an array.
\<close>

fun scrapeJobs ::
    "services \<Rightarrow> string list \<Rightarrow> string \<Rightarrow> scrape_env \<Rightarrow> (error + job list) \<times> services"
and scrapeJobs_try ::
    "services \<Rightarrow> string \<Rightarrow> string \<Rightarrow> scrape_env \<Rightarrow> (error + job list) \<times> services"
and scrapeSeek :: "services \<Rightarrow> seek_world \<Rightarrow> (error + fetched) \<times> services"
and getJobDetails ::
    "services \<Rightarrow> string + job list \<Rightarrow> scrape_env \<Rightarrow> job option \<times> services" where
  "scrapeJobs s kws loc env =
     (case checkLimit (rateLimiter s) ''jobSearch'' ''default'' (now_limit env) of
        (Inl e, rl') \<Rightarrow> (Inl e, s\<lparr>rateLimiter := rl'\<rparr>)
      | (Inr u, rl') \<Rightarrow>
          (let cacheKey = scrapeJobs_cacheKey kws loc in
           case getCachedJobSearch (cacheService s) cacheKey loc (now_probe env) of
             (Some cachedResults, c') \<Rightarrow>
               (Inr cachedResults, s\<lparr>rateLimiter := rl', cacheService := c'\<rparr>)
           | (None, c') \<Rightarrow>
               (case scrapeJobs_try (s\<lparr>rateLimiter := rl', cacheService := c'\<rparr>) cacheKey loc env of
                  (Inr enhancedJobs, s') \<Rightarrow> (Inr enhancedJobs, s')
                | (Inl e, s') \<Rightarrow>
                    (Inl (ScrapingError ''Failed to scrape jobs from all sources'' None), s'))))"
| "scrapeJobs_try s cacheKey loc (ScrapeEnv tLimit tProbe tStore seekW indeedOutcome ai rnd) =
     (case scrapeSeek s seekW of
        (seekOutcome, s') \<Rightarrow>
          (let results =
                 allSettled
                   [seekOutcome,
                    (case indeedOutcome of Inl e \<Rightarrow> Inl e | Inr jobs \<Rightarrow> Inr (JobArray jobs))]
           in case collectJobs [] results of
                Inl e \<Rightarrow> (Inl e, s')
              | Inr allJobs \<Rightarrow>
                  (let uniqueJobs = removeDuplicates allJobs;
                       enhancedJobs = enhanceJobsWithAI ai rnd 0 uniqueJobs
                   in (Inr enhancedJobs,
                       s'\<lparr>cacheService :=
                            cacheJobSearch (cacheService s') cacheKey loc enhancedJobs tStore\<rparr>))))"
| "scrapeSeek s SeekFails = (Inl (ScrapingError ''Failed to scrape Seek'' (Some ''seek'')), s)"
| "scrapeSeek s (SeekLists jobs env) =
     (case getJobDetails s (Inr (take 10 jobs)) env of
        (None, s') \<Rightarrow> (Inr NullValue, s')
      | (Some detailedJob, s') \<Rightarrow> (Inr (JobValue detailedJob), s'))"
| "getJobDetails s jobId env =
     (case scrapeJobs s [''software'', ''developer'', ''engineer''] ''Australia'' env of
        (Inr jobs, s') \<Rightarrow> (find (\<lambda>job. Inl (job_id job) = jobId) jobs, s')
      | (Inl e, s') \<Rightarrow> (None, s'))"

text \<open>The services as the modules create them.\<close>

definition new_services :: services where
  "new_services =
     \<lparr>rateLimiter = new_RateLimiterService config_rateLimits, cacheService = new_CacheService\<rparr>"

section \<open>ATS optimiser (services/atsOptimizer.ts)\<close>

definition techKeywords :: "string list" where
  "techKeywords =
     [''react'', ''angular'', ''vue'', ''javascript'', ''typescript'', ''html'', ''css'',
      ''sass'', ''less'', ''jquery'', ''bootstrap'', ''tailwind'', ''webpack'', ''vite'',
      ''next.js'', ''nuxt.js'',
      ''node.js'', ''express'', ''python'', ''django'', ''flask'', ''java'', ''spring'',
      ''c#'', ''.net'', ''php'', ''laravel'', ''ruby'', ''rails'', ''go'', ''rust'', ''scala'',
      ''sql'', ''mysql'', ''postgresql'', ''mongodb'', ''redis'', ''elasticsearch'',
      ''oracle'', ''sqlite'', ''cassandra'', ''dynamodb'',
      ''aws'', ''azure'', ''gcp'', ''docker'', ''kubernetes'', ''jenkins'', ''gitlab'',
      ''github'', ''terraform'', ''ansible'', ''ci/cd'', ''devops'', ''microservices'',
      ''git'', ''jira'', ''confluence'', ''agile'', ''scrum'', ''kanban'', ''rest'',
      ''graphql'', ''api'', ''testing'', ''jest'', ''cypress'', ''selenium'',
      ''leadership'', ''communication'', ''problem-solving'', ''teamwork'',
      ''project management'', ''analytical'', ''creative'', ''adaptable'',
      ''detail-oriented'']"

text \<open>\<open>[...new Set(xs)]\<close>: the first occurrence of every element, in order.\<close>

definition uniqueInOrder :: "'a list \<Rightarrow> 'a list" where
  "uniqueInOrder xs = rev (remdups (rev xs))"

definition extractKeywords :: "string \<Rightarrow> string list" where
  "extractKeywords content =
     (let lowerContent = toLowerCase content
      in uniqueInOrder
           (filter (\<lambda>keyword. str_includes lowerContent (toLowerCase keyword)) techKeywords))"

text \<open>The bullet sign U+2022 in UTF-8.\<close>

definition bullet :: string where
  "bullet = [char_of (226 :: nat), char_of (128 :: nat), char_of (162 :: nat)]"

text \<open>
  \<open>calculateATSScore\<close>: the running \<open>score\<close> of the source is the sum of its seven
  increments and the keyword score. \<open>keywords.length * 1.5\<close> is a multiple of one half,
  exact in a double, so the score is an exact rational.
\<close>

definition calculateATSScore :: "string \<Rightarrow> string list \<Rightarrow> rat" where
  "calculateATSScore content kws =
     (let lowerContent = toLowerCase content;
          experienceScore =
            (if str_includes lowerContent ''experience'' \<or> str_includes lowerContent ''employment''
             then 15 else 0);
          educationScore =
            (if str_includes lowerContent ''education'' \<or> str_includes lowerContent ''qualification''
             then 10 else 0);
          skillsScore =
            (if str_includes lowerContent ''skills'' \<or> str_includes lowerContent ''competencies''
             then 10 else 0);
          summaryScore =
            (if str_includes lowerContent ''summary'' \<or> str_includes lowerContent ''profile''
             then 5 else 0);
          keywordScore = min (of_nat (length kws) * (3 / 2)) 25;
          wordCount = length (split_str content CHR '' '');
          lengthScore =
            (if 400 \<le> wordCount \<and> wordCount \<le> 1000 then 15
             else if 200 \<le> wordCount \<and> wordCount \<le> 1500 then 10
             else if 100 \<le> wordCount then 5 else 0);
          bulletScore =
            (if str_includes content bullet \<or> str_includes content ''-'' \<or> str_includes content ''*''
             then 8 else 0);
          achievementScore =
            (if str_includes lowerContent ''achievements'' \<or>
                str_includes lowerContent ''accomplishments''
             then 5 else 0);
          numberScore = (if 5 < matchDigits content then 4 else 0);
          dateScore = (if matchDate content then 3 else 0);
          score = experienceScore + educationScore + skillsScore + summaryScore + keywordScore
                  + lengthScore + bulletScore + achievementScore + numberScore + dateScore
      in min score 100)"

text \<open>
  The deterministic score of a document, as \<open>basicAnalyzeCV\<close> computes it: the
  keywords are those extracted from the same content.
\<close>

definition basicAnalyzeCV_atsScore :: "string \<Rightarrow> rat" where
  "basicAnalyzeCV_atsScore cvContent = calculateATSScore cvContent (extractKeywords cvContent)"

text \<open>The test of the keyword loop of \<open>calculateMatchScore\<close>.\<close>

definition keywordMatches :: "string list \<Rightarrow> string \<Rightarrow> bool" where
  "keywordMatches cvKeywords keyword =
     list_ex (\<lambda>cvKeyword.
                str_includes (toLowerCase cvKeyword) (toLowerCase keyword) \<or>
                str_includes (toLowerCase keyword) (toLowerCase cvKeyword))
       cvKeywords"

text \<open>
  \<open>calculateMatchScore\<close>: the two \<open>forEach\<close> passes carry \<open>matchScore\<close> and
  \<open>totalPossibleScore\<close>; the quotient and its product with 100 are double operations.
\<close>

definition calculateMatchScore :: "string \<Rightarrow> string list \<Rightarrow> string list \<Rightarrow> int" where
  "calculateMatchScore cvContent jobKeywords jobRequirements =
     (let cvKeywords = extractKeywords cvContent;
          lowerCvContent = toLowerCase cvContent;
          afterKeywords =
            fold (\<lambda>keyword (m, t). (if keywordMatches cvKeywords keyword then m + 3 else m, t + 3))
              jobKeywords (0 :: int, 0 :: int);
          afterRequirements =
            fold (\<lambda>requirement (m, t).
                    (if str_includes lowerCvContent (toLowerCase requirement) then m + 2 else m,
                     t + 2))
              jobRequirements afterKeywords;
          matched = fst afterRequirements;
          totalPossibleScore = snd afterRequirements
      in if 0 < totalPossibleScore
         then Math_round (double_mul (double_div (of_int matched) (of_int totalPossibleScore)) 100)
         else 0)"

section \<open>Notions of the specification and concrete inputs\<close>

text \<open>The lower-cased (title, company) pair of a posting.\<close>

definition lowerPair :: "job \<Rightarrow> string \<times> string" where
  "lowerPair j = (toLowerCase (title j), toLowerCase (company j))"

text \<open>Two postings from different sources whose pairs differ and whose keys coincide.\<close>

definition jobA :: job where
  "jobA = \<lparr>job_id = ''seek_1_0'', title = ''a_b'', company = ''c'', location = ''Sydney'',
     salary = ''Not specified'', description = [], requirements = [], job_keywords = [],
     url = ''https://www.seek.com.au/job/1'', datePosted = ''2025-01-09'', source = seek,
     applicationStatus = not_applied, matchScore = 0\<rparr>"

definition jobB :: job where
  "jobB = \<lparr>job_id = ''indeed_1_0'', title = ''a'', company = ''b_c'', location = ''Perth'',
     salary = ''Not specified'', description = [], requirements = [], job_keywords = [],
     url = ''https://au.indeed.com/job/2'', datePosted = ''2025-01-09'', source = indeed,
     applicationStatus = not_applied, matchScore = 0\<rparr>"

text \<open>
  What the service holds for an operation and an identifier: the budget and the window
  length of the operation's limiter, and the identifier's bucket if there is one.
\<close>

definition bucketOf ::
    "RateLimiterService \<Rightarrow> string \<Rightarrow> string \<Rightarrow> (int \<times> int \<times> bucket option) option" where
  "bucketOf svc operation identifier =
     (case map_of (limiters svc) operation of
        None \<Rightarrow> None
      | Some lmt \<Rightarrow> Some (points lmt, duration lmt, map_of (storage lmt) identifier))"

text \<open>
  The retry time in the words of the specification: the remaining milliseconds floored
  to whole seconds, at least 1.
\<close>

definition flooredRetrySecs :: "int \<Rightarrow> int" where
  "flooredRetrySecs msBeforeNext = max 1 (msBeforeNext div 1000)"

text \<open>Every cached search result is free of postings with the same lower-cased pair.\<close>

definition cacheDeduplicated :: "job list BrowserCache \<Rightarrow> bool" where
  "cacheDeduplicated c =
     list_all (\<lambda>entry. distinct (map lowerPair (item_value (snd entry)))) (cache c)"

text \<open>
  A third posting, and a fourth that repeats the first one's title and company in
  capitals and comes from the other source.
\<close>

definition jobC :: job where
  "jobC = \<lparr>job_id = ''seek_1_1'', title = ''DevOps Engineer'', company = ''CloudTech'',
     location = ''Brisbane'', salary = ''Not specified'', description = [], requirements = [],
     job_keywords = [], url = ''https://www.seek.com.au/job/3'', datePosted = ''2025-01-09'',
     source = seek, applicationStatus = not_applied, matchScore = 0\<rparr>"

definition jobD :: job where
  "jobD = \<lparr>job_id = ''indeed_1_1'', title = ''A_B'', company = ''C'', location = ''Hobart'',
     salary = ''Not specified'', description = [], requirements = [], job_keywords = [],
     url = ''https://au.indeed.com/job/4'', datePosted = ''2025-01-09'', source = indeed,
     applicationStatus = not_applied, matchScore = 0\<rparr>"

text \<open>A search in which both source fetchers fail and the keyword service is not configured.\<close>

definition env_allFail :: scrape_env where
  "env_allFail =
     ScrapeEnv 0 0 4000 SeekFails
       (Inl (ScrapingError ''Failed to scrape Indeed'' (Some ''indeed'')))
       (\<lambda>d t. Inl (AppError ''Keyword extraction error'')) (\<lambda>i. 0)"

text \<open>A search in which Seek fails and Indeed returns three postings, two of them alike.\<close>

definition env_seekFails :: scrape_env where
  "env_seekFails =
     ScrapeEnv 0 0 4000 SeekFails (Inr [jobA, jobC, jobD])
       (\<lambda>d t. Inl (AppError ''Keyword extraction error'')) (\<lambda>i. 0)"

text \<open>
  A search in which the request of Seek succeeds and two postings are parsed from its
  page, and Indeed fails. In the call that \<open>getJobDetails\<close> then makes, a second and a
  half later, both fetchers fail.
\<close>

definition env_nested :: scrape_env where
  "env_nested =
     ScrapeEnv 1500 1500 5000 SeekFails
       (Inl (ScrapingError ''Failed to scrape Indeed'' (Some ''indeed'')))
       (\<lambda>d t. Inl (AppError ''Keyword extraction error'')) (\<lambda>i. 0)"

definition env_indeedFails :: scrape_env where
  "env_indeedFails =
     ScrapeEnv 0 0 9000 (SeekLists [jobA, jobC] env_nested)
       (Inl (ScrapingError ''Failed to scrape Indeed'' (Some ''indeed'')))
       (\<lambda>d t. Inl (AppError ''Keyword extraction error'')) (\<lambda>i. 0)"

text \<open>
  The match score in the words of the specification: 3 points per matched job keyword
  and 2 per requirement contained in the CV, out of 3 per keyword and 2 per
  requirement, as a rounded exact percentage; 0 when nothing is possible.
\<close>

definition matchedPoints :: "string \<Rightarrow> string list \<Rightarrow> string list \<Rightarrow> int" where
  "matchedPoints cvContent jobKeywords jobRequirements =
     3 * int (length (filter (keywordMatches (extractKeywords cvContent)) jobKeywords)) +
     2 * int (length (filter (\<lambda>requirement.
                                 str_includes (toLowerCase cvContent) (toLowerCase requirement))
                        jobRequirements))"

definition possiblePoints :: "string list \<Rightarrow> string list \<Rightarrow> int" where
  "possiblePoints jobKeywords jobRequirements =
     3 * int (length jobKeywords) + 2 * int (length jobRequirements)"

definition specMatchScore :: "string \<Rightarrow> string list \<Rightarrow> string list \<Rightarrow> int" where
  "specMatchScore cvContent jobKeywords jobRequirements =
     (if possiblePoints jobKeywords jobRequirements = 0 then 0
      else Math_round (100 * of_int (matchedPoints cvContent jobKeywords jobRequirements)
                       / of_int (possiblePoints jobKeywords jobRequirements)))"

text \<open>
  A document of 500 words: a head with the three section words, a bullet marker, two
  dates, six numbers and four vocabulary keywords, and 484 filler words.
\<close>

definition cvHead :: string where
  "cvHead = ''Experience Skills Education - March 2022 March 2023 1 2 3 4 react python docker aws''"

definition cvFiller :: string where
  "cvFiller = concat (replicate 484 '' x'')"

definition cv500 :: string where
  "cv500 = cvHead @ cvFiller"

text \<open>
  The length band of the specification: 400 to 1000 words give 15, 200 to 1500 give 10,
  100 and more give 5, fewer give 0.
\<close>

definition lengthBand :: "nat \<Rightarrow> rat" where
  "lengthBand wordCount =
     (if 400 \<le> wordCount \<and> wordCount \<le> 1000 then 15
      else if 200 \<le> wordCount \<and> wordCount \<le> 1500 then 10
      else if 100 \<le> wordCount then 5 else 0)"

section \<open>Deduplication\<close>

lemma lowerPair_eq_dedupKey: "lowerPair a = lowerPair b \<Longrightarrow> dedupKey a = dedupKey b"
  by (simp add: dedupKey_def lowerPair_def)

lemma filter_keys_fresh: "j \<in> set (removeDuplicates_filter seen js) \<Longrightarrow> dedupKey j \<notin> seen"
proof (induction js arbitrary: seen)
  case Nil
  then show ?case by simp
next
  case (Cons a js)
  show ?case
  proof (cases "dedupKey a \<in> seen")
    case True
    with Cons.prems have "j \<in> set (removeDuplicates_filter seen js)" by simp
    then show ?thesis by (rule Cons.IH)
  next
    case False
    with Cons.prems have "j = a \<or> j \<in> set (removeDuplicates_filter (insert (dedupKey a) seen) js)"
      by simp
    then show ?thesis
    proof
      assume "j = a"
      with False show ?thesis by simp
    next
      assume "j \<in> set (removeDuplicates_filter (insert (dedupKey a) seen) js)"
      then have "dedupKey j \<notin> insert (dedupKey a) seen" by (rule Cons.IH)
      then show ?thesis by simp
    qed
  qed
qed

lemma filter_distinct_keys: "distinct (map dedupKey (removeDuplicates_filter seen js))"
proof (induction js arbitrary: seen)
  case Nil
  show ?case by simp
next
  case (Cons a js)
  have "dedupKey a \<notin> dedupKey ` set (removeDuplicates_filter (insert (dedupKey a) seen) js)"
    using filter_keys_fresh by fastforce
  with Cons show ?case by simp
qed

lemma filter_distinct_pairs: "distinct (map lowerPair (removeDuplicates_filter seen js))"
proof (induction js arbitrary: seen)
  case Nil
  show ?case by simp
next
  case (Cons j js)
  have "lowerPair j \<notin> lowerPair ` set (removeDuplicates_filter (insert (dedupKey j) seen) js)"
  proof
    assume "lowerPair j \<in> lowerPair ` set (removeDuplicates_filter (insert (dedupKey j) seen) js)"
    then obtain j' where j': "j' \<in> set (removeDuplicates_filter (insert (dedupKey j) seen) js)"
      and eq: "lowerPair j = lowerPair j'" by blast
    from j' have "dedupKey j' \<notin> insert (dedupKey j) seen" by (rule filter_keys_fresh)
    moreover from eq have "dedupKey j = dedupKey j'" by (rule lowerPair_eq_dedupKey)
    ultimately show False by simp
  qed
  with Cons show ?case by simp
qed

lemma filter_first_seen:
  "p \<in> lowerPair ` set (removeDuplicates_filter seen js) \<Longrightarrow>
   find (\<lambda>j. lowerPair j = p) (removeDuplicates_filter seen js) = find (\<lambda>j. lowerPair j = p) js"
proof (induction js arbitrary: seen)
  case Nil
  then show ?case by simp
next
  case (Cons j js)
  show ?case
  proof (cases "dedupKey j \<in> seen")
    case True
    with Cons.prems have mem: "p \<in> lowerPair ` set (removeDuplicates_filter seen js)" by simp
    then obtain j' where j': "j' \<in> set (removeDuplicates_filter seen js)" "lowerPair j' = p"
      by blast
    from j'(1) have "dedupKey j' \<notin> seen" by (rule filter_keys_fresh)
    have "lowerPair j \<noteq> lowerPair j'"
    proof
      assume "lowerPair j = lowerPair j'"
      then have "dedupKey j = dedupKey j'" by (rule lowerPair_eq_dedupKey)
      with True \<open>dedupKey j' \<notin> seen\<close> show False by simp
    qed
    with j'(2) have "lowerPair j \<noteq> p" by simp
    with True Cons.IH [OF mem] show ?thesis by simp
  next
    case False
    show ?thesis
    proof (cases "lowerPair j = p")
      case True
      with False show ?thesis by simp
    next
      case ne: False
      with False Cons.prems
      have "p \<in> lowerPair ` set (removeDuplicates_filter (insert (dedupKey j) seen) js)" by auto
      from Cons.IH [OF this] False ne show ?thesis by simp
    qed
  qed
qed

lemma filter_seen_drop:
  "dedupKey j \<in> seen \<Longrightarrow>
   removeDuplicates_filter seen (pre @ j # post) = removeDuplicates_filter seen (pre @ post)"
  by (induction pre arbitrary: seen) simp_all

lemma filter_later_dropped:
  "list_ex (\<lambda>j'. lowerPair j' = lowerPair j) pre \<Longrightarrow>
   removeDuplicates_filter seen (pre @ j # post) = removeDuplicates_filter seen (pre @ post)"
proof (induction pre arbitrary: seen)
  case Nil
  then show ?case by simp
next
  case (Cons a pre)
  show ?case
  proof (cases "dedupKey a \<in> seen")
    case inSeen: True
    show ?thesis
    proof (cases "lowerPair a = lowerPair j")
      case True
      then have "dedupKey j \<in> seen" using inSeen lowerPair_eq_dedupKey [of a j] by simp
      then show ?thesis using filter_seen_drop [of j seen "a # pre" post] by simp
    next
      case False
      with Cons.prems have "list_ex (\<lambda>j'. lowerPair j' = lowerPair j) pre" by simp
      from Cons.IH [OF this] inSeen show ?thesis by simp
    qed
  next
    case notSeen: False
    show ?thesis
    proof (cases "lowerPair a = lowerPair j")
      case True
      then have "dedupKey j \<in> insert (dedupKey a) seen"
        using lowerPair_eq_dedupKey [of a j] by simp
      then show ?thesis using notSeen filter_seen_drop [of j "insert (dedupKey a) seen" pre post]
        by simp
    next
      case False
      with Cons.prems have "list_ex (\<lambda>j'. lowerPair j' = lowerPair j) pre" by simp
      from Cons.IH [OF this] notSeen show ?thesis by simp
    qed
  qed
qed

lemma enhance_step:
  "lowerPair (case r of Inr kws \<Rightarrow> j\<lparr>job_keywords := kws, matchScore := m\<rparr> | Inl e \<Rightarrow> j) = lowerPair j"
  by (cases r) (simp_all add: lowerPair_def)

lemma enhance_lowerPair: "map lowerPair (enhanceJobsWithAI ai rnd i js) = map lowerPair js"
  by (induction js arbitrary: i) (simp_all add: enhance_step)

text \<open>
  C10. The deduplication key is the lower-cased title, an underscore and the lower-cased
  company. The posting with title "a_b" and company "c" and the posting with title "a"
  and company "b_c" have different (title, company) pairs and the same key "a_b_c", and
  of the two, in this order, \<open>removeDuplicates\<close> keeps only the first.
\<close>

theorem C10_key_collision:
  "dedupKey j = toLowerCase (title j) @ ''_'' @ toLowerCase (company j) \<and>
   (title jobA, company jobA) = (''a_b'', ''c'') \<and>
   (title jobB, company jobB) = (''a'', ''b_c'') \<and>
   lowerPair jobA \<noteq> lowerPair jobB \<and>
   dedupKey jobA = ''a_b_c'' \<and> dedupKey jobB = ''a_b_c'' \<and>
   removeDuplicates [jobA, jobB] = [jobA]"
  by (simp add: dedupKey_def lowerPair_def removeDuplicates_def jobA_def jobB_def
      toLowerCase_def toLowerChar_def)

section \<open>Cache round trip\<close>

lemma map_of_cleanup:
  "distinct (map fst al) \<Longrightarrow>
   map_of (filter (\<lambda>(k, item). \<not> now > expiry item) al) key =
   (case map_of al key of None \<Rightarrow> None
    | Some item \<Rightarrow> if now > expiry item then None else Some item)"
proof (induction al)
  case Nil
  show ?case by simp
next
  case (Cons e al)
  obtain k0 item0 where e: "e = (k0, item0)" by (cases e)
  from Cons.prems e have fresh: "k0 \<notin> fst ` set al" and dist: "distinct (map fst al)" by simp_all
  note IH = Cons.IH [OF dist]
  show ?case
  proof (cases "k0 = key")
    case True
    with fresh have "key \<notin> fst ` set (filter (\<lambda>(k, item). \<not> now > expiry item) al)" by auto
    then have "map_of (filter (\<lambda>(k, item). \<not> now > expiry item) al) key = None"
      by (simp add: map_of_eq_None_iff)
    with True e show ?thesis by simp
  next
    case False
    with e IH show ?thesis by simp
  qed
qed

lemma distinct_after_set:
  "distinct (map fst (cache c)) \<Longrightarrow>
   distinct (map fst (cache (snd (BrowserCache_set c key v ttl now))))"
  by (simp add: BrowserCache_set_def Let_def distinct_update)

lemma cache_after_set:
  "map_of (cache (snd (BrowserCache_set c key v ttl now))) key =
   Some \<lparr>item_value = v,
         expiry = now + (case ttl of None \<Rightarrow> defaultTTL c
                         | Some t \<Rightarrow> if t = 0 then defaultTTL c else t * 1000)\<rparr>"
  by (simp add: BrowserCache_set_def Let_def update_conv')

lemma get_live:
  "map_of (cache c) key = Some item \<Longrightarrow> \<not> now > expiry item \<Longrightarrow>
   fst (BrowserCache_get c key now) = Some (item_value item)"
  by (simp add: BrowserCache_get_def isExpired_def)

lemma get_expired:
  "map_of (cache c) key = Some item \<Longrightarrow> now > expiry item \<Longrightarrow>
   fst (BrowserCache_get c key now) = None \<and>
   map_of (cache (snd (BrowserCache_get c key now))) key = None"
  by (simp add: BrowserCache_get_def isExpired_def delete_conv')

lemma get_absent:
  "map_of (cache c) key = None \<Longrightarrow> fst (BrowserCache_get c key now) = None"
  by (simp add: BrowserCache_get_def)

lemma has_expired:
  "map_of (cache c) key = Some item \<Longrightarrow> now > expiry item \<Longrightarrow>
   fst (BrowserCache_has c key now) = False \<and>
   map_of (cache (snd (BrowserCache_has c key now))) key = None"
  by (simp add: BrowserCache_has_def isExpired_def delete_conv')

lemma has_absent:
  "map_of (cache c) key = None \<Longrightarrow> fst (BrowserCache_has c key now) = False"
  by (simp add: BrowserCache_has_def)

lemma cleanup_lookup:
  "distinct (map fst (cache c)) \<Longrightarrow>
   map_of (cache (BrowserCache_cleanup c sweep)) key =
   (case map_of (cache c) key of None \<Rightarrow> None
    | Some item \<Rightarrow> if sweep > expiry item then None else Some item)"
  by (simp add: BrowserCache_cleanup_def map_of_cleanup)

lemma get_after_cleanup_expired:
  assumes "map_of (cache c) key = Some item" and "now > expiry item"
    and "distinct (map fst (cache c))"
  shows "fst (BrowserCache_get (BrowserCache_cleanup c sweep) key now) = None"
proof (cases "sweep > expiry item")
  case True
  with assms have "map_of (cache (BrowserCache_cleanup c sweep)) key = None"
    by (simp add: cleanup_lookup)
  then show ?thesis by (rule get_absent)
next
  case False
  with assms have "map_of (cache (BrowserCache_cleanup c sweep)) key = Some item"
    by (simp add: cleanup_lookup)
  from get_expired [OF this assms(2)] show ?thesis by simp
qed

lemma has_after_cleanup_expired:
  assumes "map_of (cache c) key = Some item" and "now > expiry item"
    and "distinct (map fst (cache c))"
  shows "fst (BrowserCache_has (BrowserCache_cleanup c sweep) key now) = False"
proof (cases "sweep > expiry item")
  case True
  with assms have "map_of (cache (BrowserCache_cleanup c sweep)) key = None"
    by (simp add: cleanup_lookup)
  then show ?thesis by (rule has_absent)
next
  case False
  with assms have "map_of (cache (BrowserCache_cleanup c sweep)) key = Some item"
    by (simp add: cleanup_lookup)
  from has_expired [OF this assms(2)] show ?thesis by simp
qed

text \<open>
  C5 (amended). For every key, value and ttl greater than zero, in a cache whose
  entries have distinct keys (as those of a \<open>Map\<close> have): after \<open>set(k, v, ttl)\<close> at time
  \<open>t0\<close>, \<open>get(k)\<close> at \<open>t0\<close>, and at any time up to \<open>ttl\<close> seconds later, returns \<open>v\<close>; once
  the clock strictly exceeds \<open>ttl\<close> seconds past the set, \<open>get(k)\<close> returns nothing and
  \<open>has(k)\<close> returns false, each removing the entry, whether or not a sweep has run in
  between.
\<close>

theorem C5_cache_round_trip:
  assumes "0 < ttl" and "t1 \<le> t0 + ttl * 1000" and "t0 + ttl * 1000 < t2"
    and "distinct (map fst (cache c))"
  shows "fst (BrowserCache_get (snd (BrowserCache_set c k v (Some ttl) t0)) k t0) = Some v \<and>
         fst (BrowserCache_get (snd (BrowserCache_set c k v (Some ttl) t0)) k t1) = Some v \<and>
         fst (BrowserCache_get (snd (BrowserCache_set c k v (Some ttl) t0)) k t2) = None \<and>
         map_of (cache (snd (BrowserCache_get (snd (BrowserCache_set c k v (Some ttl) t0)) k t2))) k = None \<and>
         fst (BrowserCache_has (snd (BrowserCache_set c k v (Some ttl) t0)) k t2) = False \<and>
         map_of (cache (snd (BrowserCache_has (snd (BrowserCache_set c k v (Some ttl) t0)) k t2))) k = None \<and>
         fst (BrowserCache_get (BrowserCache_cleanup (snd (BrowserCache_set c k v (Some ttl) t0)) sweep) k t2) = None \<and>
         fst (BrowserCache_has (BrowserCache_cleanup (snd (BrowserCache_set c k v (Some ttl) t0)) sweep) k t2) = False"
proof -
  let ?c1 = "snd (BrowserCache_set c k v (Some ttl) t0)"
  let ?item = "\<lparr>item_value = v, expiry = t0 + ttl * 1000\<rparr>"
  from assms(1) have stored: "map_of (cache ?c1) k = Some ?item"
    by (simp add: cache_after_set)
  from assms(1) have "\<not> t0 > expiry ?item" by simp
  from get_live [OF stored this] have g0: "fst (BrowserCache_get ?c1 k t0) = Some v" by simp
  from assms(2) have "\<not> t1 > expiry ?item" by simp
  from get_live [OF stored this] have g1: "fst (BrowserCache_get ?c1 k t1) = Some v" by simp
  from assms(3) have late: "t2 > expiry ?item" by simp
  note g2 = get_expired [OF stored late]
  note h2 = has_expired [OF stored late]
  from assms(4) have wf: "distinct (map fst (cache ?c1))" by (rule distinct_after_set)
  note gs = get_after_cleanup_expired [OF stored late wf, of sweep]
  note hs = has_after_cleanup_expired [OF stored late wf, of sweep]
  from g0 g1 g2 h2 gs hs show ?thesis by simp
qed

theorem C5_cache_round_trip_witness:
  "(0::int) < 300 \<and> (1000::int) \<le> 1000 + 300 * 1000 \<and> (1000::int) + 300 * 1000 < 301001 \<and>
   distinct (map fst (cache (new_CacheService :: job list BrowserCache))) \<and>
   fst (BrowserCache_get (snd (BrowserCache_set new_CacheService ''job_search:dev:Perth'' [jobA] (Some 300) 1000))
          ''job_search:dev:Perth'' 1000) = Some [jobA] \<and>
   fst (BrowserCache_get (snd (BrowserCache_set new_CacheService ''job_search:dev:Perth'' [jobA] (Some 300) 1000))
          ''job_search:dev:Perth'' 301001) = None"
  using C5_cache_round_trip [of 300 1000 1000 301001 new_CacheService "''job_search:dev:Perth''" "[jobA]" 0]
  by (simp add: new_CacheService_def new_BrowserCache_def)

text \<open>
  The claim as stated, for every ttl, fails at ttl = 0: zero is falsy, the default TTL
  of 600 seconds applies, and the entry set at time 0 is still returned one
  millisecond later, when the clock strictly exceeds 0 seconds past the set.
\<close>

theorem C5_zero_ttl_counterexample:
  "fst (BrowserCache_get (snd (BrowserCache_set new_CacheService ''k'' ''v'' (Some 0) 0)) ''k'' 1)
   = Some ''v''"
  by (simp add: BrowserCache_get_def BrowserCache_set_def new_CacheService_def
      new_BrowserCache_def isExpired_def Let_def)

section \<open>Rate limiter\<close>

lemma consume_fresh:
  "openBucket lmt ident now = None \<Longrightarrow> 0 < points lmt \<Longrightarrow>
   RateLimiterMemory_consume lmt ident now =
     (Inr (), lmt\<lparr>storage := AList.update ident \<lparr>consumedPoints = 1, windowStart = now\<rparr> (storage lmt)\<rparr>)"
  by (simp add: RateLimiterMemory_consume_def)

lemma consume_fresh_exhausted:
  "openBucket lmt ident now = None \<Longrightarrow> points lmt \<le> 0 \<Longrightarrow>
   fst (RateLimiterMemory_consume lmt ident now) = Inl (duration lmt * 1000)"
  by (simp add: RateLimiterMemory_consume_def)

lemma consume_open:
  "openBucket lmt ident now = Some b \<Longrightarrow> consumedPoints b < points lmt \<Longrightarrow>
   RateLimiterMemory_consume lmt ident now =
     (Inr (), lmt\<lparr>storage := AList.update ident (b\<lparr>consumedPoints := consumedPoints b + 1\<rparr>) (storage lmt)\<rparr>)"
  by (simp add: RateLimiterMemory_consume_def)

lemma consume_exhausted:
  "openBucket lmt ident now = Some b \<Longrightarrow> points lmt \<le> consumedPoints b \<Longrightarrow>
   RateLimiterMemory_consume lmt ident now =
     (Inl (windowStart b + duration lmt * 1000 - now),
      lmt\<lparr>storage := AList.update ident b (storage lmt)\<rparr>)"
  by (simp add: RateLimiterMemory_consume_def)

lemma openBucket_stored:
  "map_of (storage lmt) ident = Some b \<Longrightarrow> now < windowStart b + duration lmt * 1000 \<Longrightarrow>
   openBucket lmt ident now = Some b"
  by (simp add: openBucket_def)

lemma checkLimit_first:
  assumes "map_of (limiters svc) operation = Some lmt"
    and "openBucket lmt ident now = None" and "0 < points lmt"
  shows "fst (checkLimit svc operation ident now) = Inr () \<and>
         bucketOf (snd (checkLimit svc operation ident now)) operation ident =
           Some (points lmt, duration lmt, Some \<lparr>consumedPoints = 1, windowStart = now\<rparr>)"
  using assms by (simp add: checkLimit_def consume_fresh bucketOf_def update_conv')

lemma checkLimit_first_exhausted:
  assumes "map_of (limiters svc) operation = Some lmt"
    and "openBucket lmt ident now = None" and "points lmt \<le> 0"
  shows "fst (checkLimit svc operation ident now) =
           Inl (RateLimitError (retryMessage (retrySecs (duration lmt * 1000))))"
  using assms by (simp add: checkLimit_def RateLimiterMemory_consume_def)

lemma checkLimit_open:
  assumes "bucketOf svc operation ident = Some (p, d, Some \<lparr>consumedPoints = c, windowStart = w\<rparr>)"
    and "now < w + d * 1000" and "c < p"
  shows "fst (checkLimit svc operation ident now) = Inr () \<and>
         bucketOf (snd (checkLimit svc operation ident now)) operation ident =
           Some (p, d, Some \<lparr>consumedPoints = c + 1, windowStart = w\<rparr>)"
proof -
  from assms(1) obtain lmt where lmt: "map_of (limiters svc) operation = Some lmt"
    "points lmt = p" "duration lmt = d"
    "map_of (storage lmt) ident = Some \<lparr>consumedPoints = c, windowStart = w\<rparr>"
    by (auto simp: bucketOf_def split: option.splits)
  from lmt(3,4) assms(2)
  have "openBucket lmt ident now = Some \<lparr>consumedPoints = c, windowStart = w\<rparr>"
    by (simp add: openBucket_stored)
  from consume_open [OF this] lmt assms(3) show ?thesis
    by (simp add: checkLimit_def bucketOf_def update_conv')
qed

lemma checkLimit_exhausted:
  assumes "bucketOf svc operation ident = Some (p, d, Some \<lparr>consumedPoints = c, windowStart = w\<rparr>)"
    and "now < w + d * 1000" and "p \<le> c"
  shows "fst (checkLimit svc operation ident now) =
           Inl (RateLimitError (retryMessage (retrySecs (w + d * 1000 - now))))"
proof -
  from assms(1) obtain lmt where lmt: "map_of (limiters svc) operation = Some lmt"
    "points lmt = p" "duration lmt = d"
    "map_of (storage lmt) ident = Some \<lparr>consumedPoints = c, windowStart = w\<rparr>"
    by (auto simp: bucketOf_def split: option.splits)
  from lmt(3,4) assms(2)
  have "openBucket lmt ident now = Some \<lparr>consumedPoints = c, windowStart = w\<rparr>"
    by (simp add: openBucket_stored)
  from consume_exhausted [OF this] lmt assms(3) show ?thesis
    by (simp add: checkLimit_def)
qed

lemma checkLimit_seq_append:
  "checkLimit_seq svc (xs @ ys) =
   (fst (checkLimit_seq svc xs) @ fst (checkLimit_seq (snd (checkLimit_seq svc xs)) ys),
    snd (checkLimit_seq (snd (checkLimit_seq svc xs)) ys))"
  by (induction xs arbitrary: svc) (auto simp: case_prod_unfold)

lemma checkLimit_seq_open:
  assumes "bucketOf svc operation ident = Some (p, d, Some \<lparr>consumedPoints = c, windowStart = w\<rparr>)"
    and "\<forall>t \<in> set ts. t < w + d * 1000" and "c + int (length ts) \<le> p"
  shows "fst (checkLimit_seq svc (map (\<lambda>t. (operation, ident, t)) ts)) = replicate (length ts) (Inr ()) \<and>
         bucketOf (snd (checkLimit_seq svc (map (\<lambda>t. (operation, ident, t)) ts))) operation ident =
           Some (p, d, Some \<lparr>consumedPoints = c + int (length ts), windowStart = w\<rparr>)"
  using assms
proof (induction ts arbitrary: svc c)
  case Nil
  then show ?case by simp
next
  case (Cons t ts)
  from Cons.prems have "t < w + d * 1000" "c < p" by simp_all
  note step = checkLimit_open [OF Cons.prems(1) this]
  let ?svc' = "snd (checkLimit svc operation ident t)"
  from step have b': "bucketOf ?svc' operation ident =
      Some (p, d, Some \<lparr>consumedPoints = c + 1, windowStart = w\<rparr>)" by simp
  from Cons.prems have "\<forall>t \<in> set ts. t < w + d * 1000" "c + 1 + int (length ts) \<le> p" by simp_all
  note IH = Cons.IH [OF b' this]
  from step IH show ?case by (simp add: case_prod_unfold add.assoc add.commute)
qed


lemma Math_round_div1000: "Math_round (of_int ms / 1000) = (ms + 500) div 1000"
proof -
  have "(of_int ms / 1000 + 1 / 2 :: rat) = of_int (ms + 500) / of_int 1000" by simp
  then have "Math_round (of_int ms / 1000) = \<lfloor>(of_int (ms + 500) / of_int 1000 :: rat)\<rfloor>"
    by (simp only: Math_round_def)
  also have "\<dots> = (ms + 500) div 1000" by (rule floor_divide_of_int_eq)
  finally show ?thesis .
qed

lemma retrySecs_formula: "0 < ms \<Longrightarrow> retrySecs ms = max 1 ((ms + 500) div 1000)"
  unfolding retrySecs_def Let_def Math_round_div1000 by (simp add: max_def)

lemma retrySecs_positive: "0 < ms \<Longrightarrow> 1 \<le> retrySecs ms"
  by (simp add: retrySecs_formula)

lemma remaining_of_bucket:
  assumes "bucketOf svc operation ident = Some (p, d, Some \<lparr>consumedPoints = c, windowStart = w\<rparr>)"
    and "now < w + d * 1000" and "c \<le> p"
  shows "getRemainingPoints cfg svc operation ident now = p - c"
proof -
  from assms(1) obtain lmt where lmt: "map_of (limiters svc) operation = Some lmt"
    "points lmt = p" "duration lmt = d"
    "map_of (storage lmt) ident = Some \<lparr>consumedPoints = c, windowStart = w\<rparr>"
    by (auto simp: bucketOf_def split: option.splits)
  from lmt(3,4) assms(2)
  have "openBucket lmt ident now = Some \<lparr>consumedPoints = c, windowStart = w\<rparr>"
    by (simp add: openBucket_stored)
  with lmt assms(3) show ?thesis
    by (simp add: getRemainingPoints_def RateLimiterMemory_get_def)
qed


lemma new_service_fold_None:
  "operation \<notin> fst ` set cfg \<Longrightarrow> map_of acc operation = None \<Longrightarrow>
   map_of (fold (\<lambda>(key, p, d). AList.update key \<lparr>points = p, duration = d, storage = []\<rparr>) cfg acc)
     operation = None"
  by (induction cfg arbitrary: acc) (auto simp: update_conv')

lemma new_service_unconfigured:
  "operation \<notin> fst ` set cfg \<Longrightarrow> map_of (limiters (new_RateLimiterService cfg)) operation = None"
  by (simp add: new_RateLimiterService_def new_service_fold_None)

lemma checkLimit_keeps_unconfigured:
  "map_of (limiters svc) operation = None \<Longrightarrow>
   map_of (limiters (snd (checkLimit svc op' ident now))) operation = None"
  by (cases "operation = op'")
     (auto simp: checkLimit_def update_conv' split: option.splits sum.splits prod.splits)

lemma checkLimit_seq_keeps_unconfigured:
  "map_of (limiters svc) operation = None \<Longrightarrow>
   map_of (limiters (snd (checkLimit_seq svc calls))) operation = None"
proof (induction calls arbitrary: svc)
  case Nil
  then show ?case by simp
next
  case (Cons call calls)
  obtain op' ident now where call: "call = (op', ident, now)" by (cases call)
  from Cons.prems have "map_of (limiters (snd (checkLimit svc op' ident now))) operation = None"
    by (rule checkLimit_keeps_unconfigured)
  from Cons.IH [OF this] call show ?case by (simp add: case_prod_unfold)
qed

lemma checkLimit_unconfigured:
  "map_of (limiters svc) operation = None \<Longrightarrow>
   checkLimit svc operation ident now =
     (Inl (Error (''Rate limiter not configured for operation: '' @ operation)), svc)"
  by (simp add: checkLimit_def)

text \<open>
  C9. In the service built from the default configuration, after any history of calls,
  \<open>checkLimit\<close> for an operation other than jobSearch, cvTailoring and
  coverLetterGeneration fails with the plain \<open>Error\<close> "Rate limiter not configured for
  operation: ..." (not a \<open>RateLimitError\<close>) and leaves the service, and so every bucket,
  as it was.
\<close>

theorem C9_unconfigured_operation:
  assumes "operation \<notin> {''jobSearch'', ''cvTailoring'', ''coverLetterGeneration''}"
  shows "checkLimit (snd (checkLimit_seq (new_RateLimiterService config_rateLimits) history))
           operation ident now =
         (Inl (Error (''Rate limiter not configured for operation: '' @ operation)),
          snd (checkLimit_seq (new_RateLimiterService config_rateLimits) history))"
proof -
  from assms have "operation \<notin> fst ` set config_rateLimits"
    by (simp add: config_rateLimits_def)
  then have "map_of (limiters (new_RateLimiterService config_rateLimits)) operation = None"
    by (rule new_service_unconfigured)
  then have "map_of (limiters (snd (checkLimit_seq (new_RateLimiterService config_rateLimits) history)))
      operation = None"
    by (rule checkLimit_seq_keeps_unconfigured)
  then show ?thesis by (rule checkLimit_unconfigured)
qed

theorem C9_unconfigured_operation_witness:
  "''analyzeCV'' \<notin> {''jobSearch'', ''cvTailoring'', ''coverLetterGeneration''} \<and>
   checkLimit (snd (checkLimit_seq (new_RateLimiterService config_rateLimits)
                      [(''jobSearch'', ''default'', 0), (''cvTailoring'', ''default'', 10)]))
     ''analyzeCV'' ''default'' 20 =
   (Inl (Error ''Rate limiter not configured for operation: analyzeCV''),
    snd (checkLimit_seq (new_RateLimiterService config_rateLimits)
           [(''jobSearch'', ''default'', 0), (''cvTailoring'', ''default'', 10)]))"
  using C9_unconfigured_operation [of "''analyzeCV''"
      "[(''jobSearch'', ''default'', 0), (''cvTailoring'', ''default'', 10)]" "''default''" 20]
  by simp

text \<open>
  C3 (amended). For an operation with a limiter of \<open>points\<close> points and an identifier
  with no open window when the first call arrives: of \<open>points + 1\<close> calls made within
  the window that the first call opens, the first \<open>points\<close> succeed, the \<open>k\<close>-th of them
  leaving \<open>points - k\<close> points, and the last fails with a \<open>RateLimitError\<close> whose seconds
  are the time until the refill (window start plus duration minus now) rounded to the
  nearest whole second, a half going up, and 1 when that gives 0; the seconds are
  positive.
\<close>

theorem C3_checkLimit_window:
  assumes "map_of (limiters svc) operation = Some lmt"
    and "openBucket lmt ident (hd (ts @ [tlast])) = None"
    and "length ts = nat (points lmt)"
    and "\<forall>t \<in> set (ts @ [tlast]). t < hd (ts @ [tlast]) + duration lmt * 1000"
    and "0 < k" and "k \<le> length ts"
  shows "fst (checkLimit_seq svc (map (\<lambda>t. (operation, ident, t)) (ts @ [tlast]))) =
           replicate (nat (points lmt)) (Inr ()) @
           [Inl (RateLimitError
                   (retryMessage (retrySecs (hd (ts @ [tlast]) + duration lmt * 1000 - tlast))))] \<and>
         retrySecs (hd (ts @ [tlast]) + duration lmt * 1000 - tlast) =
           max 1 ((hd (ts @ [tlast]) + duration lmt * 1000 - tlast + 500) div 1000) \<and>
         1 \<le> retrySecs (hd (ts @ [tlast]) + duration lmt * 1000 - tlast) \<and>
         getRemainingPoints cfg
           (snd (checkLimit_seq svc (map (\<lambda>t. (operation, ident, t)) (take k ts))))
           operation ident (ts ! (k - 1)) = points lmt - int k"
proof -
  let ?p = "points lmt" and ?d = "duration lmt"
  let ?first = "hd (ts @ [tlast])"
  let ?call = "\<lambda>t. (operation, ident, t)"
  from assms(4) have last_in: "tlast < ?first + ?d * 1000" by simp
  then have ms_pos: "0 < ?first + ?d * 1000 - tlast" by simp
  from assms(5,6) obtain t1 ts' where ts: "ts = t1 # ts'" by (cases ts) auto
  with assms(3) have p_pos: "0 < ?p" by (cases "0 < ?p") auto
  from ts have first: "?first = t1" by simp
  from assms(2) first have fresh: "openBucket lmt ident t1 = None" by simp
  note step1 = checkLimit_first [OF assms(1) fresh p_pos]
  let ?svc1 = "snd (checkLimit svc operation ident t1)"
  from step1 have b1: "bucketOf ?svc1 operation ident =
      Some (?p, ?d, Some \<lparr>consumedPoints = 1, windowStart = t1\<rparr>)" by simp
  from assms(4) ts first have in_window: "\<forall>t \<in> set ts'. t < t1 + ?d * 1000" by simp
  from assms(3) ts p_pos have len: "1 + int (length ts') \<le> ?p" by simp
  note rest = checkLimit_seq_open [OF b1 in_window len]
  let ?svcp = "snd (checkLimit_seq ?svc1 (map ?call ts'))"
  from assms(3) ts p_pos have full: "1 + int (length ts') = ?p" by simp
  with rest have bp: "bucketOf ?svcp operation ident =
      Some (?p, ?d, Some \<lparr>consumedPoints = ?p, windowStart = t1\<rparr>)" by simp
  from last_in first have "tlast < t1 + ?d * 1000" by simp
  from checkLimit_exhausted [OF bp this]
  have fail: "fst (checkLimit ?svcp operation ident tlast) =
      Inl (RateLimitError (retryMessage (retrySecs (t1 + ?d * 1000 - tlast))))" by simp
  have seq_all: "fst (checkLimit_seq svc (map ?call (ts @ [tlast]))) =
      Inr () # replicate (length ts') (Inr ()) @
      [Inl (RateLimitError (retryMessage (retrySecs (t1 + ?d * 1000 - tlast))))]"
    using step1 rest fail
    by (simp add: ts checkLimit_seq_append case_prod_unfold)
  from assms(3) ts have "nat ?p = Suc (length ts')" by simp
  with seq_all first have results: "fst (checkLimit_seq svc (map ?call (ts @ [tlast]))) =
      replicate (nat ?p) (Inr ()) @
      [Inl (RateLimitError (retryMessage (retrySecs (?first + ?d * 1000 - tlast))))]"
    by simp
  from assms(5,6) ts obtain k' where k: "k = Suc k'" "k' \<le> length ts'" by (cases k) auto
  have in_window_k: "\<forall>t \<in> set (take k' ts'). t < t1 + ?d * 1000"
    using in_window by (auto dest: in_set_takeD)
  from k len have len_k: "1 + int (length (take k' ts')) \<le> ?p" by simp
  note upto = checkLimit_seq_open [OF b1 in_window_k len_k]
  from k have lk: "length (take k' ts') = k'" by simp
  from upto lk have bk: "bucketOf (snd (checkLimit_seq ?svc1 (map ?call (take k' ts')))) operation ident =
      Some (?p, ?d, Some \<lparr>consumedPoints = 1 + int k', windowStart = t1\<rparr>)" by simp
  have tk: "ts ! (k - 1) < t1 + ?d * 1000"
    using assms(4,6) k ts first by (cases k') auto
  from len_k lk have "1 + int k' \<le> ?p" by simp
  from remaining_of_bucket [OF bk tk this, of cfg]
  have remaining: "getRemainingPoints cfg (snd (checkLimit_seq svc (map ?call (take k ts))))
      operation ident (ts ! (k - 1)) = ?p - int k"
    using k ts by (simp add: case_prod_unfold)
  from results retrySecs_formula [OF ms_pos] retrySecs_positive [OF ms_pos] remaining
  show ?thesis by simp
qed


theorem C3_checkLimit_window_witness:
  "map_of (limiters (new_RateLimiterService config_rateLimits)) ''cvTailoring'' =
     Some \<lparr>points = 5, duration = 60, storage = []\<rparr> \<and>
   openBucket \<lparr>points = 5, duration = 60, storage = []\<rparr> ''default'' 0 = None \<and>
   length [0, 1000, 2000, 3000, 4000 :: int] = nat 5 \<and>
   list_all (\<lambda>t. t < 0 + 60 * 1000) ([0, 1000, 2000, 3000, 4000] @ [58400 :: int]) \<and>
   fst (checkLimit_seq (new_RateLimiterService config_rateLimits)
          (map (\<lambda>t. (''cvTailoring'', ''default'', t)) ([0, 1000, 2000, 3000, 4000] @ [58400]))) =
     replicate 5 (Inr ()) @
     [Inl (RateLimitError ''Rate limit exceeded. Try again in 2 seconds.'')] \<and>
   getRemainingPoints config_rateLimits
     (snd (checkLimit_seq (new_RateLimiterService config_rateLimits)
             (map (\<lambda>t. (''cvTailoring'', ''default'', t)) (take 3 [0, 1000, 2000, 3000, 4000]))))
     ''cvTailoring'' ''default'' 2000 = 2"
proof -
  let ?lmt = "\<lparr>points = 5, duration = 60, storage = []\<rparr>"
  let ?ts = "[0, 1000, 2000, 3000, 4000 :: int]"
  have h1: "map_of (limiters (new_RateLimiterService config_rateLimits)) ''cvTailoring'' = Some ?lmt"
    by (simp add: new_RateLimiterService_def config_rateLimits_def)
  have h2: "openBucket ?lmt ''default'' (hd (?ts @ [58400])) = None"
    by (simp add: openBucket_def)
  have h3: "length ?ts = nat (points ?lmt)" by simp
  have h4: "\<forall>t \<in> set (?ts @ [58400]). t < hd (?ts @ [58400]) + duration ?lmt * 1000" by simp
  have msg: "retryMessage (retrySecs (hd (?ts @ [58400]) + duration ?lmt * 1000 - 58400)) =
      ''Rate limit exceeded. Try again in 2 seconds.''"
    by code_simp
  from C3_checkLimit_window [OF h1 h2 h3 h4, of 3 config_rateLimits] msg h1
  show ?thesis by (simp add: openBucket_def)
qed

text \<open>
  The claim as stated, with the seconds floored, fails for jobSearch (10 points per 60
  seconds): after ten calls at time 0 the eleventh, 58400 ms later, has 1600 ms to
  wait; the error says 2 seconds, the floor is 1.
\<close>

theorem C3_floor_counterexample:
  "fst (checkLimit_seq (new_RateLimiterService config_rateLimits)
          (map (\<lambda>t. (''jobSearch'', ''default'', t)) (replicate 10 0 @ [58400]))) =
     replicate 10 (Inr ()) @ [Inl (RateLimitError (retryMessage 2))] \<and>
   flooredRetrySecs (0 + 60 * 1000 - 58400) = 1 \<and>
   retryMessage 2 \<noteq> retryMessage (flooredRetrySecs (0 + 60 * 1000 - 58400))"
  by code_simp

section \<open>Aggregation of the sources\<close>

lemma collectJobs_seek_rejected:
  "collectJobs []
     (allSettled [Inl e, (case outcome of Inl e' \<Rightarrow> Inl e' | Inr jobs \<Rightarrow> Inr (JobArray jobs))]) =
   Inr (case outcome of Inl e' \<Rightarrow> [] | Inr jobs \<Rightarrow> jobs)"
  by (cases outcome) (simp_all add: allSettled_def)

lemma collectJobs_seek_null:
  "collectJobs [] (allSettled (Inr NullValue # rest)) = Inl (TypeError ''object null is not iterable'')"
  by (simp add: allSettled_def)

lemma getJobDetails_array: "fst (getJobDetails s (Inr arg) env) = None"
proof -
  obtain r s' where run: "scrapeJobs s [''software'', ''developer'', ''engineer''] ''Australia'' env = (r, s')"
    by (cases "scrapeJobs s [''software'', ''developer'', ''engineer''] ''Australia'' env")
  show ?thesis
  proof (cases r)
    case (Inl e)
    with run show ?thesis by (simp add: getJobDetails.simps)
  next
    case (Inr jobs)
    have "find (\<lambda>job. Inl (job_id job) = (Inr arg :: string + job list)) jobs = None"
      by (simp add: find_None_iff)
    with run Inr show ?thesis by (simp add: getJobDetails.simps)
  qed
qed

lemma scrapeSeek_listed: "fst (scrapeSeek s (SeekLists jobs env)) = Inr NullValue"
proof -
  obtain d s' where run: "getJobDetails s (Inr (take 10 jobs)) env = (d, s')"
    by (cases "getJobDetails s (Inr (take 10 jobs)) env")
  with getJobDetails_array [of s "take 10 jobs" env] have "d = None" by simp
  with run show ?thesis by simp
qed

lemma scrapeJobs_try_seek_fails:
  assumes "seekWorld env = SeekFails"
  shows "scrapeJobs_try s cacheKey loc env =
         (Inr (enhanceJobsWithAI (extractJobKeywords env) (random40 env) 0
                 (removeDuplicates (case scrapeIndeed env of Inl e \<Rightarrow> [] | Inr jobs \<Rightarrow> jobs))),
          s\<lparr>cacheService :=
               cacheJobSearch (cacheService s) cacheKey loc
                 (enhanceJobsWithAI (extractJobKeywords env) (random40 env) 0
                    (removeDuplicates (case scrapeIndeed env of Inl e \<Rightarrow> [] | Inr jobs \<Rightarrow> jobs)))
                 (now_store env)\<rparr>)"
  using assms by (cases env) (simp add: collectJobs_seek_rejected Let_def)

lemma scrapeJobs_try_seek_lists:
  assumes "seekWorld env = SeekLists jobs env'"
  shows "fst (scrapeJobs_try s cacheKey loc env) = Inl (TypeError ''object null is not iterable'')"
proof -
  obtain tLimit tProbe tStore indeedOutcome ai rnd
    where env: "env = ScrapeEnv tLimit tProbe tStore (SeekLists jobs env') indeedOutcome ai rnd"
    using assms by (cases env) simp
  obtain o1 s1 where seek: "scrapeSeek s (SeekLists jobs env') = (o1, s1)"
    by (cases "scrapeSeek s (SeekLists jobs env')")
  with scrapeSeek_listed [of s jobs env'] have "o1 = Inr NullValue" by simp
  with seek show ?thesis
    unfolding env scrapeJobs_try.simps by (simp add: collectJobs_seek_null del: scrapeSeek.simps)
qed

lemma scrapeJobs_seek_fails:
  assumes "fst (checkLimit (rateLimiter s) ''jobSearch'' ''default'' (now_limit env)) = Inr ()"
    and "fst (getCachedJobSearch (cacheService s) (scrapeJobs_cacheKey kws loc) loc (now_probe env)) = None"
    and "seekWorld env = SeekFails"
  shows "fst (scrapeJobs s kws loc env) =
         Inr (enhanceJobsWithAI (extractJobKeywords env) (random40 env) 0
                (removeDuplicates (case scrapeIndeed env of Inl e \<Rightarrow> [] | Inr jobs \<Rightarrow> jobs)))"
proof -
  obtain r rl' where cl: "checkLimit (rateLimiter s) ''jobSearch'' ''default'' (now_limit env) = (r, rl')"
    by (cases "checkLimit (rateLimiter s) ''jobSearch'' ''default'' (now_limit env)")
  with assms(1) have r: "r = Inr ()" by simp
  obtain g c' where gc: "getCachedJobSearch (cacheService s) (scrapeJobs_cacheKey kws loc) loc (now_probe env) = (g, c')"
    by (cases "getCachedJobSearch (cacheService s) (scrapeJobs_cacheKey kws loc) loc (now_probe env)")
  with assms(2) have g: "g = None" by simp
  show ?thesis
    by (simp add: scrapeJobs.simps cl r gc g scrapeJobs_try_seek_fails [OF assms(3)] Let_def)
qed

lemma scrapeJobs_seek_lists:
  assumes "fst (checkLimit (rateLimiter s) ''jobSearch'' ''default'' (now_limit env)) = Inr ()"
    and "fst (getCachedJobSearch (cacheService s) (scrapeJobs_cacheKey kws loc) loc (now_probe env)) = None"
    and "seekWorld env = SeekLists jobs env'"
  shows "fst (scrapeJobs s kws loc env) =
         Inl (ScrapingError ''Failed to scrape jobs from all sources'' None)"
proof -
  obtain r rl' where cl: "checkLimit (rateLimiter s) ''jobSearch'' ''default'' (now_limit env) = (r, rl')"
    by (cases "checkLimit (rateLimiter s) ''jobSearch'' ''default'' (now_limit env)")
  with assms(1) have r: "r = Inr ()" by simp
  obtain g c' where gc: "getCachedJobSearch (cacheService s) (scrapeJobs_cacheKey kws loc) loc (now_probe env) = (g, c')"
    by (cases "getCachedJobSearch (cacheService s) (scrapeJobs_cacheKey kws loc) loc (now_probe env)")
  with assms(2) have g: "g = None" by simp
  let ?s1 = "s\<lparr>rateLimiter := rl', cacheService := c'\<rparr>"
  obtain t s2 where tr: "scrapeJobs_try ?s1 (scrapeJobs_cacheKey kws loc) loc env = (t, s2)"
    by (cases "scrapeJobs_try ?s1 (scrapeJobs_cacheKey kws loc) loc env")
  with scrapeJobs_try_seek_lists [OF assms(3), of ?s1 "scrapeJobs_cacheKey kws loc" loc]
  have "t = Inl (TypeError ''object null is not iterable'')" by simp
  with tr show ?thesis by (simp add: scrapeJobs.simps cl r gc g Let_def)
qed

lemma enhance_identity:
  "map (\<lambda>j. (job_id j, title j, company j, source j)) (enhanceJobsWithAI ai rnd i js) =
   map (\<lambda>j. (job_id j, title j, company j, source j)) js"
proof (induction js arbitrary: i)
  case Nil
  show ?case by simp
next
  case (Cons j js)
  have "(\<lambda>j. (job_id j, title j, company j, source j))
          (case ai (description j) (title j) of
             Inr kws \<Rightarrow> j\<lparr>job_keywords := kws, matchScore := int (rnd i mod 40) + 60\<rparr>
           | Inl e \<Rightarrow> j) = (job_id j, title j, company j, source j)"
    by (cases "ai (description j) (title j)") simp_all
  with Cons show ?case by simp
qed

text \<open>
  C6. The claim fails on the code when Seek is the source that succeeds. On the freshly
  created services, in a search for "developer" in Perth in which the request of Seek
  succeeds and Indeed fails, \<open>scrapeSeek\<close> is fulfilled with \<open>null\<close>: the later
  declaration of \<open>getJobDetails\<close> has replaced the per-listing one. Spreading \<open>null\<close>
  inside the \<open>try\<close> block throws, and \<open>scrapeJobs\<close> fails with the \<open>ScrapingError\<close>
  "Failed to scrape jobs from all sources" instead of returning postings.
\<close>

theorem C6_seek_fulfilled_aborts:
  "fst (scrapeSeek new_services (seekWorld env_indeedFails)) = Inr NullValue \<and>
   scrapeIndeed env_indeedFails = Inl (ScrapingError ''Failed to scrape Indeed'' (Some ''indeed'')) \<and>
   fst (scrapeJobs new_services [''developer''] ''Perth'' env_indeedFails) =
     Inl (ScrapingError ''Failed to scrape jobs from all sources'' None)"
  by code_simp

text \<open>
  C1. On the freshly created services, a search for "software", "developer" in
  Australia in which both source fetchers fail does not fail with a \<open>ScrapingError\<close>:
  \<open>scrapeJobs\<close> returns the empty list. \<open>Promise.allSettled\<close> does not reject, the two
  rejections are only logged, and the \<open>catch\<close> clause that throws "Failed to scrape jobs
  from all sources" is not reached on this input.
\<close>

theorem C1_all_sources_fail_returns_empty:
  "fst (scrapeSeek new_services (seekWorld env_allFail)) =
     Inl (ScrapingError ''Failed to scrape Seek'' (Some ''seek'')) \<and>
   scrapeIndeed env_allFail = Inl (ScrapingError ''Failed to scrape Indeed'' (Some ''indeed'')) \<and>
   fst (scrapeJobs new_services [''software'', ''developer''] ''Australia'' env_allFail) = Inr []"
  by code_simp

lemma list_all_update:
  "list_all P al \<Longrightarrow> P (k, v) \<Longrightarrow> list_all P (AList.update k v al)"
  by (induction al) auto

lemma list_all_delete: "list_all P al \<Longrightarrow> list_all P (AList.delete k al)"
  by (simp add: AList.delete_eq list_all_iff)

lemma cacheDeduplicated_set:
  "cacheDeduplicated c \<Longrightarrow> distinct (map lowerPair v) \<Longrightarrow>
   cacheDeduplicated (snd (BrowserCache_set c key v ttl now))"
  by (simp add: cacheDeduplicated_def BrowserCache_set_def Let_def list_all_update)

lemma cacheDeduplicated_get:
  assumes "cacheDeduplicated c"
  shows "cacheDeduplicated (snd (BrowserCache_get c key now))"
    and "fst (BrowserCache_get c key now) = Some v \<Longrightarrow> distinct (map lowerPair v)"
proof -
  show "cacheDeduplicated (snd (BrowserCache_get c key now))"
    using assms
    by (simp add: cacheDeduplicated_def BrowserCache_get_def list_all_delete split: option.splits)
next
  assume got: "fst (BrowserCache_get c key now) = Some v"
  then obtain item where item: "map_of (cache c) key = Some item" "item_value item = v"
    by (auto simp: BrowserCache_get_def split: option.splits if_splits)
  from item(1) have "(key, item) \<in> set (cache c)" by (rule map_of_SomeD)
  with assms item(2) show "distinct (map lowerPair v)"
    by (auto simp: cacheDeduplicated_def list_all_iff)
qed

lemma removeDuplicates_distinct_pairs: "distinct (map lowerPair (removeDuplicates jobs))"
  by (simp add: removeDuplicates_def filter_distinct_pairs)

lemma scrapeJobs_deduplicated:
  assumes inv: "cacheDeduplicated (cacheService s)"
    and res: "fst (scrapeJobs s kws loc env) = Inr r"
  shows "distinct (map lowerPair r) \<and> cacheDeduplicated (cacheService (snd (scrapeJobs s kws loc env)))"
proof -
  let ?key = "scrapeJobs_cacheKey kws loc"
  obtain a rl' where cl: "checkLimit (rateLimiter s) ''jobSearch'' ''default'' (now_limit env) = (a, rl')"
    by (cases "checkLimit (rateLimiter s) ''jobSearch'' ''default'' (now_limit env)")
  obtain g c' where gc: "getCachedJobSearch (cacheService s) ?key loc (now_probe env) = (g, c')"
    by (cases "getCachedJobSearch (cacheService s) ?key loc (now_probe env)")
  from res cl have a: "a = Inr ()" by (cases a) (simp_all add: scrapeJobs.simps)
  from gc have c': "c' = snd (BrowserCache_get (cacheService s) (jobSearchKey ?key loc) (now_probe env))"
    and g: "g = fst (BrowserCache_get (cacheService s) (jobSearchKey ?key loc) (now_probe env))"
    by (simp_all add: getCachedJobSearch_def)
  from inv c' have inv': "cacheDeduplicated c'" by (simp add: cacheDeduplicated_get(1))
  show ?thesis
  proof (cases g)
    case (Some cached)
    with res cl a gc have "r = cached" by (simp add: scrapeJobs.simps)
    moreover from Some g inv have "distinct (map lowerPair cached)"
      using cacheDeduplicated_get(2) [of "cacheService s" "jobSearchKey ?key loc" "now_probe env" cached]
      by simp
    moreover from Some cl a gc have "cacheService (snd (scrapeJobs s kws loc env)) = c'"
      by (simp add: scrapeJobs.simps)
    ultimately show ?thesis using inv' by simp
  next
    case None
    let ?s1 = "s\<lparr>rateLimiter := rl', cacheService := c'\<rparr>"
    from cl a have lim: "fst (checkLimit (rateLimiter s) ''jobSearch'' ''default'' (now_limit env)) = Inr ()"
      by simp
    from gc None have miss: "fst (getCachedJobSearch (cacheService s) ?key loc (now_probe env)) = None"
      by simp
    show ?thesis
    proof (cases "seekWorld env")
      case SeekFails
      let ?r = "enhanceJobsWithAI (extractJobKeywords env) (random40 env) 0
                  (removeDuplicates (case scrapeIndeed env of Inl e \<Rightarrow> [] | Inr jobs \<Rightarrow> jobs))"
      from scrapeJobs_seek_fails [OF lim miss SeekFails] res have r: "r = ?r" by simp
      have d: "distinct (map lowerPair ?r)"
        by (simp add: enhance_lowerPair removeDuplicates_distinct_pairs)
      from None cl a gc have "cacheService (snd (scrapeJobs s kws loc env)) =
          cacheJobSearch c' ?key loc ?r (now_store env)"
        by (simp add: scrapeJobs.simps scrapeJobs_try_seek_fails [OF SeekFails] Let_def)
      with inv' d r show ?thesis
        by (simp add: cacheJobSearch_def cacheDeduplicated_set)
    next
      case (SeekLists jobs env')
      from scrapeJobs_seek_lists [OF lim miss SeekLists] res show ?thesis by simp
    qed
  qed
qed

text \<open>
  C4. The result of \<open>removeDuplicates\<close> holds no two postings with the same lower-cased
  (title, company) pair. For every pair that is retained, the posting kept is the
  first posting of the input with that pair. A posting whose pair already occurs
  earlier in the input is dropped, whatever its source: the result is the same as
  without it. Hence every successful \<open>scrapeJobs\<close> result is free of such duplicates,
  given that the cached results are, which holds for the new cache and is preserved by
  every call.
\<close>

theorem C4_deduplication:
  "distinct (map lowerPair (removeDuplicates jobs)) \<and>
   (\<forall>p \<in> lowerPair ` set (removeDuplicates jobs).
      find (\<lambda>j. lowerPair j = p) (removeDuplicates jobs) = find (\<lambda>j. lowerPair j = p) jobs) \<and>
   (list_ex (\<lambda>j'. lowerPair j' = lowerPair j) pre \<longrightarrow>
      removeDuplicates (pre @ j # post) = removeDuplicates (pre @ post)) \<and>
   cacheDeduplicated (cacheService new_services) \<and>
   (cacheDeduplicated (cacheService s) \<and> fst (scrapeJobs s kws loc env) = Inr r \<longrightarrow>
      distinct (map lowerPair r) \<and>
      cacheDeduplicated (cacheService (snd (scrapeJobs s kws loc env))))"
proof -
  have first: "\<forall>p \<in> lowerPair ` set (removeDuplicates jobs).
      find (\<lambda>j. lowerPair j = p) (removeDuplicates jobs) = find (\<lambda>j. lowerPair j = p) jobs"
    unfolding removeDuplicates_def using filter_first_seen by blast
  have later: "list_ex (\<lambda>j'. lowerPair j' = lowerPair j) pre \<longrightarrow>
      removeDuplicates (pre @ j # post) = removeDuplicates (pre @ post)"
    unfolding removeDuplicates_def using filter_later_dropped by blast
  have init: "cacheDeduplicated (cacheService new_services)"
    by (simp add: cacheDeduplicated_def new_services_def new_CacheService_def new_BrowserCache_def)
  from removeDuplicates_distinct_pairs first later init scrapeJobs_deduplicated
  show ?thesis by blast
qed

theorem C4_deduplication_witness:
  "removeDuplicates [jobA, jobC, jobD] = [jobA, jobC] \<and>
   distinct (map lowerPair [jobA, jobC]) \<and>
   lowerPair jobA = (''a_b'', ''c'') \<and> lowerPair jobD = (''a_b'', ''c'') \<and>
   find (\<lambda>j. lowerPair j = (''a_b'', ''c'')) (removeDuplicates [jobA, jobC, jobD]) = Some jobA \<and>
   list_ex (\<lambda>j'. lowerPair j' = lowerPair jobD) [jobA, jobC] \<and>
   removeDuplicates ([jobA, jobC] @ jobD # []) = removeDuplicates ([jobA, jobC] @ []) \<and>
   cacheDeduplicated (cacheService new_services) \<and>
   fst (scrapeJobs new_services [''developer''] ''Perth'' env_seekFails) = Inr [jobA, jobC] \<and>
   cacheDeduplicated (cacheService (snd (scrapeJobs new_services [''developer''] ''Perth'' env_seekFails)))"
proof -
  note inst = C4_deduplication [of "[jobA, jobC, jobD]" jobD "[jobA, jobC]" "[]" new_services
      "[''developer'']" "''Perth''" env_seekFails "[jobA, jobC]"]
  have rd: "removeDuplicates [jobA, jobC, jobD] = [jobA, jobC]" by code_simp
  have pa: "lowerPair jobA = (''a_b'', ''c'')" and pd: "lowerPair jobD = (''a_b'', ''c'')"
    by code_simp+
  have ex: "list_ex (\<lambda>j'. lowerPair j' = lowerPair jobD) [jobA, jobC]" by (simp add: pa pd)
  have run: "fst (scrapeJobs new_services [''developer''] ''Perth'' env_seekFails) = Inr [jobA, jobC]"
    by code_simp
  have fnd: "find (\<lambda>j. lowerPair j = (''a_b'', ''c'')) [jobA, jobC, jobD] = Some jobA"
    by (simp add: pa)
  from inst have d: "distinct (map lowerPair (removeDuplicates [jobA, jobC, jobD]))" by blast
  from inst have every: "\<forall>p \<in> lowerPair ` set (removeDuplicates [jobA, jobC, jobD]).
      find (\<lambda>j. lowerPair j = p) (removeDuplicates [jobA, jobC, jobD]) =
      find (\<lambda>j. lowerPair j = p) [jobA, jobC, jobD]" by blast
  have mem: "(''a_b'', ''c'') \<in> lowerPair ` set (removeDuplicates [jobA, jobC, jobD])"
    by (simp add: rd pa)
  from bspec [OF every mem] fnd
  have f: "find (\<lambda>j. lowerPair j = (''a_b'', ''c'')) (removeDuplicates [jobA, jobC, jobD]) = Some jobA"
    by (simp only:)
  from inst ex have l: "removeDuplicates ([jobA, jobC] @ jobD # []) = removeDuplicates ([jobA, jobC] @ [])"
    by blast
  from inst have i: "cacheDeduplicated (cacheService new_services)" by blast
  from inst i run have c: "cacheDeduplicated (cacheService (snd (scrapeJobs new_services [''developer''] ''Perth'' env_seekFails)))"
    by blast
  from d rd have d': "distinct (map lowerPair [jobA, jobC])" by simp
  from rd d' pa pd f ex l i run c show ?thesis by blast
qed

section \<open>Match score\<close>

lemma roundHalfEven_nonneg: "0 \<le> x \<Longrightarrow> 0 \<le> roundHalfEven x"
  by (simp add: roundHalfEven_def Let_def)

lemma roundHalfEven_le_int: "x \<le> of_int n \<Longrightarrow> roundHalfEven x \<le> n"
proof -
  assume le: "x \<le> of_int n"
  then have fl: "\<lfloor>x\<rfloor> \<le> n" by (simp add: floor_le_iff)
  show ?thesis
  proof (cases "of_int \<lfloor>x\<rfloor> = x")
    case True
    have "x - of_int \<lfloor>x\<rfloor> = 0" by (simp only: True diff_self)
    then have "roundHalfEven x = \<lfloor>x\<rfloor>" by (simp add: roundHalfEven_def Let_def)
    with fl show ?thesis by simp
  next
    case False
    have "of_int \<lfloor>x\<rfloor> \<le> x" by (rule of_int_floor_le)
    then have "of_int \<lfloor>x\<rfloor> < x" using False by (rule le_neq_trans)
    with le have "(of_int \<lfloor>x\<rfloor> :: rat) < of_int n" by simp
    then have "\<lfloor>x\<rfloor> < n" by simp
    then have "\<lfloor>x\<rfloor> + 1 \<le> n" by simp
    moreover have "roundHalfEven x \<le> \<lfloor>x\<rfloor> + 1" by (simp add: roundHalfEven_def Let_def)
    ultimately show ?thesis by simp
  qed
qed

lemma binade_lower: assumes "0 < q" shows "2 powi (binade q) \<le> q"
proof -
  obtain a b where ab: "quotient_of q = (a, b)" by (cases "quotient_of q")
  then have b: "0 < b" by (rule quotient_of_denom_pos)
  from ab have q: "q = of_int a / of_int b" by (rule quotient_of_div)
  with assms b have a: "0 < a" by (simp add: zero_less_divide_iff)
  let ?d = "bitlen a - bitlen b"
  show ?thesis
  proof (cases "2 powi ?d \<le> q")
    case True
    with ab show ?thesis by (simp add: binade_def)
  next
    case False
    with ab have bin: "binade q = ?d - 1" by (simp add: binade_def)
    from bitlen_bounds [OF a] have "2 ^ nat (bitlen a - 1) \<le> a" by simp
    then have "(of_int (2 ^ nat (bitlen a - 1)) :: rat) \<le> of_int a" by (simp only: of_int_le_iff)
    then have la: "(2 ^ nat (bitlen a - 1) :: rat) \<le> of_int a" by simp
    from bitlen_bounds [OF b] have "b < 2 ^ nat (bitlen b)" by simp
    then have "(of_int b :: rat) < of_int (2 ^ nat (bitlen b))" by (simp only: of_int_less_iff)
    then have lb: "(of_int b :: rat) \<le> 2 ^ nat (bitlen b)" by simp
    from a have a1: "1 \<le> bitlen a" using bitlen_eq_zero_iff [of a] bitlen_nonneg [of a] by linarith
    have b0: "0 \<le> bitlen b" by (rule bitlen_nonneg)
    have "(2::rat) powi (?d - 1) = 2 powi (bitlen a - 1) / 2 powi (bitlen b)"
      using power_int_diff [of "2::rat" "bitlen a - 1" "bitlen b"] by (simp add: algebra_simps)
    also have "\<dots> = 2 ^ nat (bitlen a - 1) / 2 ^ nat (bitlen b)"
      using a1 b0 by (simp add: power_int_nonneg_exp)
    also have "\<dots> \<le> of_int a / of_int b"
      using la lb b a by (intro frac_le) simp_all
    finally show ?thesis using bin q by simp
  qed
qed

lemma binade_upper_bound:
  assumes "0 < q" and "q < 2 powi n" shows "binade q < n"
proof -
  from binade_lower [OF assms(1)] assms(2) have "(2::rat) powi (binade q) < 2 powi n" by simp
  show ?thesis
  proof (rule ccontr)
    assume "\<not> binade q < n"
    then have "n \<le> binade q" by simp
    then have "(2::rat) powi n \<le> 2 powi (binade q)" by (rule power_int_increasing) simp
    with \<open>(2::rat) powi (binade q) < 2 powi n\<close> show False by simp
  qed
qed


lemma toDouble_nonneg: "0 \<le> toDouble q"
proof (cases "q \<le> 0")
  case True
  then show ?thesis by (simp add: toDouble_def)
next
  case False
  then have "0 \<le> q / 2 powi (binade q - 52)" by simp
  then have "0 \<le> roundHalfEven (q / 2 powi (binade q - 52))" by (rule roundHalfEven_nonneg)
  with False show ?thesis by (simp add: toDouble_def Let_def)
qed

lemma toDouble_le_int:
  assumes "q \<le> of_int n" and "0 \<le> n" and "n < 2 ^ 53"
  shows "toDouble q \<le> of_int n"
proof (cases "q \<le> 0")
  case True
  with assms(2) show ?thesis by (simp add: toDouble_def)
next
  case False
  then have q: "0 < q" by simp
  let ?e = "binade q - 52"
  from assms(3) have "(of_int n :: rat) < of_int (2 ^ 53)" by (simp only: of_int_less_iff)
  then have "(of_int n :: rat) < 2 powi 53" by simp
  with assms(1) have "q < 2 powi 53" by simp
  from binade_upper_bound [OF q this] have e: "?e \<le> 0" by simp
  let ?m = "nat (- ?e)"
  from e have pw: "(2::rat) powi ?e = 1 / 2 ^ ?m"
    using power_int_minus_divide [of "2::rat" "- ?e"] by (simp add: power_int_nonneg_exp)
  then have scaled: "q / 2 powi ?e = q * 2 ^ ?m" by simp
  from assms(1) have "q * 2 ^ ?m \<le> of_int n * 2 ^ ?m" by simp
  also have "\<dots> = of_int (n * 2 ^ ?m)" by simp
  finally have "roundHalfEven (q * 2 ^ ?m) \<le> n * 2 ^ ?m" by (rule roundHalfEven_le_int)
  then have "(of_int (roundHalfEven (q * 2 ^ ?m)) :: rat) \<le> of_int (n * 2 ^ ?m)"
    by (simp only: of_int_le_iff)
  then have "of_int (roundHalfEven (q * 2 ^ ?m)) / 2 ^ ?m \<le> (of_int n :: rat)"
    by (simp add: divide_le_eq)
  with False scaled pw show ?thesis by (simp add: toDouble_def Let_def)
qed

lemma fold_keywords:
  "fold (\<lambda>keyword (m, t). (if P keyword then m + 3 else m, t + 3)) ks (m0 :: int, t0 :: int) =
   (m0 + 3 * int (length (filter P ks)), t0 + 3 * int (length ks))"
  by (induction ks arbitrary: m0 t0) simp_all

lemma fold_requirements:
  "fold (\<lambda>requirement (m, t). (if P requirement then m + 2 else m, t + 2)) rs (m0 :: int, t0 :: int) =
   (m0 + 2 * int (length (filter P rs)), t0 + 2 * int (length rs))"
  by (induction rs arbitrary: m0 t0) simp_all

lemma calculateMatchScore_points:
  "calculateMatchScore cv ks rs =
   (if 0 < possiblePoints ks rs
    then Math_round (double_mul (double_div (of_int (matchedPoints cv ks rs))
                                   (of_int (possiblePoints ks rs))) 100)
    else 0)"
  by (simp add: calculateMatchScore_def Let_def fold_keywords fold_requirements
      matchedPoints_def possiblePoints_def)

lemma matched_le_possible: "matchedPoints cv ks rs \<le> possiblePoints ks rs"
proof -
  have "int (length (filter (keywordMatches (extractKeywords cv)) ks)) \<le> int (length ks)"
    by simp
  moreover have "int (length (filter (\<lambda>requirement.
      str_includes (toLowerCase cv) (toLowerCase requirement)) rs)) \<le> int (length rs)"
    by simp
  ultimately show ?thesis unfolding matchedPoints_def possiblePoints_def by linarith
qed

lemma matched_nonneg: "0 \<le> matchedPoints cv ks rs"
  by (simp add: matchedPoints_def)

lemma percentage_range:
  assumes "0 \<le> m" and "m \<le> t" and "0 < (t :: int)"
  shows "0 \<le> Math_round (double_mul (double_div (of_int m) (of_int t)) 100) \<and>
         Math_round (double_mul (double_div (of_int m) (of_int t)) 100) \<le> 100"
proof -
  let ?x = "double_div (of_int m) (of_int t)"
  from assms have "(of_int m / of_int t :: rat) \<le> of_int 1" by (simp add: divide_le_eq)
  then have "toDouble (of_int m / of_int t) \<le> of_int 1" by (rule toDouble_le_int) simp_all
  then have x1: "?x \<le> 1" by (simp add: double_div_def)
  have x0: "0 \<le> ?x" by (simp add: double_div_def toDouble_nonneg)
  from x1 have "?x * 100 \<le> of_int 100" by simp
  then have "toDouble (?x * 100) \<le> of_int 100" by (rule toDouble_le_int) simp_all
  then have y1: "double_mul ?x 100 \<le> 100" by (simp add: double_mul_def)
  have y0: "0 \<le> double_mul ?x 100" by (simp add: double_mul_def toDouble_nonneg)
  from y0 have "0 \<le> Math_round (double_mul ?x 100)" by (simp add: Math_round_def)
  moreover from y1 have "double_mul ?x 100 + 1 / 2 < of_int 101" by simp
  then have "Math_round (double_mul ?x 100) < 101" unfolding Math_round_def by (simp only: floor_less_iff)
  ultimately show ?thesis by simp
qed

text \<open>
  C2 (amended). \<open>calculateMatchScore\<close> awards 3 points per job keyword that matches, by
  containment in either direction, one of the vocabulary keywords extracted from the
  CV, out of 3 per job keyword, and 2 points per requirement contained, without regard
  to case, in the CV text, out of 2 per requirement. It returns \<open>Math.round\<close> of the
  double product of 100 and the double quotient matched / possible, 0 when nothing is
  possible (so 0 when both lists are empty), and always a whole number from 0 to 100.
\<close>

theorem C2_match_score:
  "calculateMatchScore cvContent jobKeywords jobRequirements =
     (if possiblePoints jobKeywords jobRequirements = 0 then 0
      else Math_round (double_mul
             (double_div (of_int (matchedPoints cvContent jobKeywords jobRequirements))
                (of_int (possiblePoints jobKeywords jobRequirements))) 100)) \<and>
   calculateMatchScore cvContent [] [] = 0 \<and>
   0 \<le> calculateMatchScore cvContent jobKeywords jobRequirements \<and>
   calculateMatchScore cvContent jobKeywords jobRequirements \<le> 100"
proof -
  have pos: "0 \<le> possiblePoints jobKeywords jobRequirements" by (simp add: possiblePoints_def)
  then have eq: "calculateMatchScore cvContent jobKeywords jobRequirements =
     (if possiblePoints jobKeywords jobRequirements = 0 then 0
      else Math_round (double_mul
             (double_div (of_int (matchedPoints cvContent jobKeywords jobRequirements))
                (of_int (possiblePoints jobKeywords jobRequirements))) 100))"
    by (simp add: calculateMatchScore_points)
  have empty: "calculateMatchScore cvContent [] [] = 0"
    by (simp add: calculateMatchScore_points possiblePoints_def)
  have range: "0 \<le> calculateMatchScore cvContent jobKeywords jobRequirements \<and>
      calculateMatchScore cvContent jobKeywords jobRequirements \<le> 100"
  proof (cases "0 < possiblePoints jobKeywords jobRequirements")
    case True
    from percentage_range [OF matched_nonneg matched_le_possible True, of cvContent]
    show ?thesis using True by (simp add: calculateMatchScore_points)
  next
    case False
    then show ?thesis by (simp add: calculateMatchScore_points)
  qed
  from eq empty range show ?thesis by simp
qed

text \<open>
  The claim as stated, with the exact percentage rounded, fails for the CV "react", the
  job keywords "react" and "zzz" and seventeen requirements of which ten are "react":
  23 of 40 points are matched, the exact percentage 57.5 rounds to 58, and the code
  returns 57, because the double nearest to 23/40 times 100 is the double just below
  57.5.
\<close>

theorem C2_rounding_counterexample:
  "matchedPoints ''react'' [''react'', ''zzz''] (replicate 10 ''react'' @ replicate 7 ''zzz'') = 23 \<and>
   possiblePoints [''react'', ''zzz''] (replicate 10 ''react'' @ replicate 7 ''zzz'') = 40 \<and>
   specMatchScore ''react'' [''react'', ''zzz''] (replicate 10 ''react'' @ replicate 7 ''zzz'') = 58 \<and>
   calculateMatchScore ''react'' [''react'', ''zzz''] (replicate 10 ''react'' @ replicate 7 ''zzz'') = 57"
  by code_simp

section \<open>ATS score\<close>

lemma toLowerCase_append: "toLowerCase (a @ b) = toLowerCase a @ toLowerCase b"
  by (simp add: toLowerCase_def)

lemma includes_append: "str_includes s w \<Longrightarrow> str_includes (s @ t) w"
proof -
  assume "str_includes s w"
  then obtain ps ss where "s = ps @ w @ ss" by (auto simp: str_includes_def sublist_def)
  then have "s @ t = ps @ w @ (ss @ t)" by simp
  then show ?thesis unfolding str_includes_def sublist_def by blast
qed

lemma includes_lower_append:
  "str_includes (toLowerCase content) w \<Longrightarrow> str_includes (toLowerCase (content @ tail_text)) w"
  by (simp add: toLowerCase_append includes_append)

lemma includes_before_fill:
  assumes "w \<noteq> []" and "last w \<notin> set fill"
  shows "str_includes (s @ fill) w = str_includes s w"
proof
  assume "str_includes s w"
  then show "str_includes (s @ fill) w" by (rule includes_append)
next
  assume "str_includes (s @ fill) w"
  then obtain ps ss where eq: "s @ fill = ps @ w @ ss"
    by (auto simp: str_includes_def sublist_def)
  then have "s @ fill = (ps @ w) @ ss" by simp
  then obtain us where "(s = (ps @ w) @ us \<and> us @ fill = ss) \<or> (s @ us = ps @ w \<and> fill = us @ ss)"
    unfolding append_eq_append_conv2 by blast
  then show "str_includes s w"
  proof
    assume "s = (ps @ w) @ us \<and> us @ fill = ss"
    then have "s = ps @ w @ us" by simp
    then show ?thesis unfolding str_includes_def sublist_def by blast
  next
    assume c: "s @ us = ps @ w \<and> fill = us @ ss"
    show ?thesis
    proof (cases "us = []")
      case True
      with c have "s = ps @ w @ []" by simp
      then show ?thesis unfolding str_includes_def sublist_def by blast
    next
      case False
      from c have "last (s @ us) = last (ps @ w)" by simp
      with False assms(1) have "last us = last w" by simp
      moreover from False have "last us \<in> set us" by simp
      ultimately have "last w \<in> set fill" using c by simp
      with assms(2) show ?thesis by simp
    qed
  qed
qed

lemma split_str_nonempty: "split_str s c \<noteq> []"
  by (induction s) (simp_all split: list.splits)

lemma wordCount_spaces: "length (split_str s c) = Suc (length (filter (\<lambda>x. x = c) s))"
proof (induction s)
  case Nil
  show ?case by simp
next
  case (Cons x xs)
  obtain w ws where "split_str xs c = w # ws"
    using split_str_nonempty [of xs c] by (cases "split_str xs c") simp_all
  with Cons show ?case by simp
qed

lemma wordCount_append:
  "c \<notin> set tail_text \<Longrightarrow> length (split_str (content @ tail_text) c) = length (split_str content c)"
proof -
  assume "c \<notin> set tail_text"
  then have "filter (\<lambda>x. x = c) tail_text = []" by (auto simp: filter_empty_conv)
  then show ?thesis by (simp add: wordCount_spaces)
qed

lemma countDigitRuns_append: "countDigitRuns inRun xs \<le> countDigitRuns inRun (xs @ ys)"
  by (induction xs arbitrary: inRun) simp_all

lemma matchDigits_append: "matchDigits content \<le> matchDigits (content @ tail_text)"
  by (simp add: matchDigits_def countDigitRuns_append)

lemma matchDateAt_append: assumes "matchDateAt xs" shows "matchDateAt (xs @ ys)"
proof (cases xs)
  case Nil
  with assms show ?thesis by simp
next
  case (Cons c cs)
  with assms have up: "isUpper c" and run: "takeWhile isLower cs \<noteq> []"
    and rest: "(case dropWhile isLower cs of
         s # d1 # d2 # d3 # d4 # rest \<Rightarrow>
           s = CHR '' '' \<and> isDigit d1 \<and> isDigit d2 \<and> isDigit d3 \<and> isDigit d4
       | _ \<Rightarrow> False)"
    by simp_all
  from rest obtain s d1 d2 d3 d4 r where dw: "dropWhile isLower cs = s # d1 # d2 # d3 # d4 # r"
    by (auto split: list.splits)
  then have "dropWhile isLower cs \<noteq> []" by simp
  then obtain x where x: "x \<in> set cs" "\<not> isLower x"
    by (auto simp: dropWhile_eq_Nil_conv)
  then have tw: "takeWhile isLower (cs @ ys) = takeWhile isLower cs"
    and dw': "dropWhile isLower (cs @ ys) = dropWhile isLower cs @ ys"
    by (simp_all add: takeWhile_append1 dropWhile_append1)
  from up run rest show ?thesis by (simp add: Cons tw dw' dw)
qed

lemma matchDate_append: "matchDate xs \<Longrightarrow> matchDate (xs @ ys)"
proof (induction xs)
  case Nil
  then show ?case by simp
next
  case (Cons c cs)
  from Cons.prems have "matchDateAt (c # cs) \<or> matchDate cs" by simp
  then show ?case
  proof
    assume "matchDateAt (c # cs)"
    then have "matchDateAt ((c # cs) @ ys)" by (rule matchDateAt_append)
    then show ?thesis by simp
  next
    assume "matchDate cs"
    then have "matchDate (cs @ ys)" by (rule Cons.IH)
    then show ?thesis by simp
  qed
qed

lemma length_uniqueInOrder: "length (uniqueInOrder xs) = card (set xs)"
  by (simp add: uniqueInOrder_def length_remdups_card_conv)

lemma extractKeywords_append:
  "length (extractKeywords content) \<le> length (extractKeywords (content @ tail_text))"
proof -
  have "set (filter (\<lambda>keyword. str_includes (toLowerCase content) (toLowerCase keyword)) techKeywords)
      \<subseteq> set (filter (\<lambda>keyword. str_includes (toLowerCase (content @ tail_text)) (toLowerCase keyword))
              techKeywords)"
    by (auto simp: includes_lower_append)
  then show ?thesis
    by (simp add: extractKeywords_def Let_def length_uniqueInOrder card_mono)
qed


lemma section_mono:
  "(if str_includes (toLowerCase content) a \<or> str_includes (toLowerCase content) b
    then x else 0)
   \<le> (if str_includes (toLowerCase (content @ tail_text)) a \<or>
          str_includes (toLowerCase (content @ tail_text)) b
       then x else (0 :: rat))" if "0 \<le> x"
  using that by (auto simp: includes_lower_append)

lemma bullet_mono:
  "(if str_includes content a \<or> str_includes content b \<or> str_includes content c
    then x else 0)
   \<le> (if str_includes (content @ tail_text) a \<or> str_includes (content @ tail_text) b \<or>
          str_includes (content @ tail_text) c
       then x else (0 :: rat))" if "0 \<le> x"
  using that by (auto simp: includes_append)

lemma number_mono:
  "(if 5 < matchDigits content then 4 else 0)
   \<le> (if 5 < matchDigits (content @ tail_text) then 4 else (0 :: rat))"
  using matchDigits_append [of content tail_text] by auto

lemma date_mono:
  "(if matchDate content then 3 else 0)
   \<le> (if matchDate (content @ tail_text) then 3 else (0 :: rat))"
  by (auto simp: matchDate_append)

lemma keyword_mono:
  "length kws \<le> length kws' \<Longrightarrow>
   min (of_nat (length kws) * (3 / 2)) 25 \<le> min (of_nat (length kws') * (3 / 2)) (25 :: rat)"
  by (intro min.mono) simp_all

lemma calculateATSScore_append:
  assumes "lengthBand (length (split_str content CHR '' ''))
           \<le> lengthBand (length (split_str (content @ tail_text) CHR '' ''))"
    and "length kws \<le> length kws'"
  shows "calculateATSScore content kws \<le> calculateATSScore (content @ tail_text) kws'"
proof -
  from assms(1) have band:
    "(if 400 \<le> length (split_str content CHR '' '') \<and> length (split_str content CHR '' '') \<le> 1000
      then 15
      else if 200 \<le> length (split_str content CHR '' '') \<and>
              length (split_str content CHR '' '') \<le> 1500
      then 10 else if 100 \<le> length (split_str content CHR '' '') then 5 else 0)
     \<le> (if 400 \<le> length (split_str (content @ tail_text) CHR '' '') \<and>
            length (split_str (content @ tail_text) CHR '' '') \<le> 1000
         then 15
         else if 200 \<le> length (split_str (content @ tail_text) CHR '' '') \<and>
                 length (split_str (content @ tail_text) CHR '' '') \<le> 1500
         then 10
         else if 100 \<le> length (split_str (content @ tail_text) CHR '' '') then 5 else (0 :: rat))"
    by (simp only: lengthBand_def)
  show ?thesis
    unfolding calculateATSScore_def Let_def
    by (intro min.mono add_mono order_refl section_mono bullet_mono number_mono date_mono
        keyword_mono [OF assms(2)] band) simp_all
qed

lemma lengthBand_append:
  "CHR '' '' \<notin> set tail_text \<Longrightarrow>
   lengthBand (length (split_str content CHR '' ''))
   \<le> lengthBand (length (split_str (content @ tail_text) CHR '' ''))"
  by (simp add: wordCount_append)

lemma atsScore_append:
  assumes "lengthBand (length (split_str content CHR '' ''))
           \<le> lengthBand (length (split_str (content @ tail_text) CHR '' ''))"
  shows "basicAnalyzeCV_atsScore content \<le> basicAnalyzeCV_atsScore (content @ tail_text)"
  unfolding basicAnalyzeCV_atsScore_def
  using assms extractKeywords_append by (rule calculateATSScore_append)

text \<open>
  C8. For every document and every essential section keyword (experience, employment,
  education, qualification, skills, competencies, summary, profile) that the
  lower-cased document does not contain, the deterministic ATS score of the document
  with the keyword appended is at least the score of the document itself, both with
  the keywords extracted anew and with the keyword list held fixed. All else is equal
  when the keyword is appended directly, or after any separator without a space (a
  line break, say): the word count, which counts spaces, stays what it was. After a
  separator with spaces the same holds as long as the new word count does not fall
  into a lower length band.
\<close>

theorem C8_section_keyword_monotone:
  assumes "kw \<in> {''experience'', ''employment'', ''education'', ''qualification'',
                  ''skills'', ''competencies'', ''summary'', ''profile''}"
    and "\<not> str_includes (toLowerCase content) kw"
  shows "basicAnalyzeCV_atsScore content \<le> basicAnalyzeCV_atsScore (content @ kw) \<and>
         calculateATSScore content kws \<le> calculateATSScore (content @ kw) kws \<and>
         (CHR '' '' \<notin> set sep \<longrightarrow>
            basicAnalyzeCV_atsScore content \<le> basicAnalyzeCV_atsScore (content @ sep @ kw)) \<and>
         (lengthBand (length (split_str content CHR '' ''))
            \<le> lengthBand (length (split_str (content @ sep @ kw) CHR '' '')) \<longrightarrow>
            basicAnalyzeCV_atsScore content \<le> basicAnalyzeCV_atsScore (content @ sep @ kw))"
proof -
  from assms(1) have kw: "CHR '' '' \<notin> set kw" by auto
  then have direct: "basicAnalyzeCV_atsScore content \<le> basicAnalyzeCV_atsScore (content @ kw)"
    by (intro atsScore_append lengthBand_append)
  from kw have fixed: "calculateATSScore content kws \<le> calculateATSScore (content @ kw) kws"
    by (intro calculateATSScore_append lengthBand_append order_refl)
  have nospace: "basicAnalyzeCV_atsScore content \<le> basicAnalyzeCV_atsScore (content @ sep @ kw)"
    if "CHR '' '' \<notin> set sep"
  proof -
    from that kw have "CHR '' '' \<notin> set (sep @ kw)" by simp
    then show ?thesis by (intro atsScore_append lengthBand_append)
  qed
  have band: "basicAnalyzeCV_atsScore content \<le> basicAnalyzeCV_atsScore (content @ sep @ kw)"
    if "lengthBand (length (split_str content CHR '' ''))
          \<le> lengthBand (length (split_str (content @ sep @ kw) CHR '' ''))"
    using that by (rule atsScore_append)
  from direct fixed nospace band show ?thesis by blast
qed

text \<open>
  C7. A document of 500 words (\<open>split(' ')\<close> gives 500 pieces) that contains, in any
  capitalisation, the section words experience, skills and education, but none of
  summary, profile, achievements and accomplishments, that contains a bullet marker
  and a "Month YYYY" date, more than 5 numeric tokens and exactly 4 vocabulary
  keywords, has the deterministic ATS score 71 = 15 + 10 + 10 + 0 + 6 + 15 + 8 + 0 + 4
  + 3.
\<close>

theorem C7_ats_scenario:
  assumes "length (split_str content CHR '' '') = 500"
    and "str_includes (toLowerCase content) ''experience''"
    and "str_includes (toLowerCase content) ''skills''"
    and "str_includes (toLowerCase content) ''education''"
    and "\<not> str_includes (toLowerCase content) ''summary''"
    and "\<not> str_includes (toLowerCase content) ''profile''"
    and "\<not> str_includes (toLowerCase content) ''achievements''"
    and "\<not> str_includes (toLowerCase content) ''accomplishments''"
    and "str_includes content bullet \<or> str_includes content ''-'' \<or> str_includes content ''*''"
    and "matchDate content"
    and "5 < matchDigits content"
    and "length (extractKeywords content) = 4"
  shows "basicAnalyzeCV_atsScore content = 71"
  using assms by (simp add: basicAnalyzeCV_atsScore_def calculateATSScore_def Let_def)


theorem C8_section_keyword_monotone_witness:
  "''summary'' \<in> {''experience'', ''employment'', ''education'', ''qualification'',
                    ''skills'', ''competencies'', ''summary'', ''profile''} \<and>
   \<not> str_includes (toLowerCase ''Experience with React'') ''summary'' \<and>
   basicAnalyzeCV_atsScore ''Experience with React'' = 33 / 2 \<and>
   basicAnalyzeCV_atsScore (''Experience with React'' @ ''summary'') = 43 / 2 \<and>
   basicAnalyzeCV_atsScore ''Experience with React''
     \<le> basicAnalyzeCV_atsScore (''Experience with React'' @ ''summary'') \<and>
   lengthBand (length (split_str ''Experience with React'' CHR '' ''))
     \<le> lengthBand (length (split_str (''Experience with React'' @ '' '' @ ''summary'') CHR '' '')) \<and>
   basicAnalyzeCV_atsScore ''Experience with React''
     \<le> basicAnalyzeCV_atsScore (''Experience with React'' @ '' '' @ ''summary'')"
proof -
  have h1: "''summary'' \<in> {''experience'', ''employment'', ''education'', ''qualification'',
                    ''skills'', ''competencies'', ''summary'', ''profile''}" by simp
  have h2: "\<not> str_includes (toLowerCase ''Experience with React'') ''summary''" by code_simp
  have h3: "lengthBand (length (split_str ''Experience with React'' CHR '' ''))
     \<le> lengthBand (length (split_str (''Experience with React'' @ '' '' @ ''summary'') CHR '' ''))"
    by code_simp
  have v1: "basicAnalyzeCV_atsScore ''Experience with React'' = 33 / 2" by code_simp
  have v2: "basicAnalyzeCV_atsScore (''Experience with React'' @ ''summary'') = 43 / 2"
    by code_simp
  note inst = C8_section_keyword_monotone [OF h1 h2, of "[]" "'' ''"]
  from inst have le: "basicAnalyzeCV_atsScore ''Experience with React''
     \<le> basicAnalyzeCV_atsScore (''Experience with React'' @ ''summary'')"
    by (rule conjunct1)
  from inst h3 have le': "basicAnalyzeCV_atsScore ''Experience with React''
     \<le> basicAnalyzeCV_atsScore (''Experience with React'' @ '' '' @ ''summary'')"
    by blast
  from h1 h2 v1 v2 le h3 le' show ?thesis by (intro conjI)
qed

lemma set_concat_replicate: "set (concat (replicate n s)) \<subseteq> set s"
  by (induction n) auto

lemma length_filter_concat_replicate:
  "length (filter P (concat (replicate n s))) = n * length (filter P s)"
  by (induction n) simp_all

lemma cvFiller_chars: "set cvFiller \<subseteq> {CHR '' '', CHR ''x''}"
  unfolding cvFiller_def using set_concat_replicate [of 484 "'' x''"] by auto

lemma cvFiller_lower: "toLowerCase cvFiller = cvFiller"
proof -
  have "toLowerChar CHR '' '' = CHR '' ''" and "toLowerChar CHR ''x'' = CHR ''x''"
    by code_simp+
  with cvFiller_chars have "\<forall>c \<in> set cvFiller. toLowerChar c = c" by auto
  then show ?thesis by (simp add: toLowerCase_def map_idI)
qed

lemma cv500_includes_lower:
  assumes "w \<noteq> []" and "last w \<noteq> CHR '' ''" and "last w \<noteq> CHR ''x''"
  shows "str_includes (toLowerCase cv500) w = str_includes (toLowerCase cvHead) w"
proof -
  from assms(2,3) cvFiller_chars have "last w \<notin> set cvFiller" by auto
  from includes_before_fill [OF assms(1) this] show ?thesis
    by (simp add: cv500_def toLowerCase_append cvFiller_lower)
qed

lemma cv500_keywords: "extractKeywords cv500 = extractKeywords cvHead"
proof -
  have "list_all (\<lambda>keyword. toLowerCase keyword \<noteq> [] \<and> last (toLowerCase keyword) \<noteq> CHR '' '' \<and>
                    last (toLowerCase keyword) \<noteq> CHR ''x'') techKeywords"
    by code_simp
  then have "\<forall>keyword \<in> set techKeywords.
      str_includes (toLowerCase cv500) (toLowerCase keyword) =
      str_includes (toLowerCase cvHead) (toLowerCase keyword)"
    by (auto simp: list_all_iff cv500_includes_lower)
  then have "filter (\<lambda>keyword. str_includes (toLowerCase cv500) (toLowerCase keyword)) techKeywords =
      filter (\<lambda>keyword. str_includes (toLowerCase cvHead) (toLowerCase keyword)) techKeywords"
    by (intro filter_cong) simp_all
  then show ?thesis by (simp add: extractKeywords_def Let_def)
qed

lemma cv500_wordCount: "length (split_str cv500 CHR '' '') = 500"
proof -
  have "length (filter (\<lambda>x. x = CHR '' '') cvHead) = 15" by code_simp
  moreover have "length (filter (\<lambda>x. x = CHR '' '') cvFiller) = 484"
    by (simp add: cvFiller_def length_filter_concat_replicate)
  ultimately show ?thesis by (simp add: cv500_def wordCount_spaces)
qed

theorem C7_ats_scenario_witness:
  "length (split_str cv500 CHR '' '') = 500 \<and>
   str_includes (toLowerCase cv500) ''experience'' \<and>
   str_includes (toLowerCase cv500) ''skills'' \<and>
   str_includes (toLowerCase cv500) ''education'' \<and>
   \<not> str_includes (toLowerCase cv500) ''summary'' \<and>
   \<not> str_includes (toLowerCase cv500) ''profile'' \<and>
   \<not> str_includes (toLowerCase cv500) ''achievements'' \<and>
   \<not> str_includes (toLowerCase cv500) ''accomplishments'' \<and>
   str_includes cv500 ''-'' \<and>
   matchDate cv500 \<and>
   5 < matchDigits cv500 \<and>
   extractKeywords cv500 = [''react'', ''python'', ''aws'', ''docker''] \<and>
   basicAnalyzeCV_atsScore cv500 = 71"
proof -
  have p1: "str_includes (toLowerCase cv500) ''experience''"
    and p2: "str_includes (toLowerCase cv500) ''skills''"
    and p3: "str_includes (toLowerCase cv500) ''education''"
    and n1: "\<not> str_includes (toLowerCase cv500) ''summary''"
    and n2: "\<not> str_includes (toLowerCase cv500) ''profile''"
    and n3: "\<not> str_includes (toLowerCase cv500) ''achievements''"
    and n4: "\<not> str_includes (toLowerCase cv500) ''accomplishments''"
    unfolding cv500_includes_lower [of "''experience''", simplified]
      cv500_includes_lower [of "''skills''", simplified]
      cv500_includes_lower [of "''education''", simplified]
      cv500_includes_lower [of "''summary''", simplified]
      cv500_includes_lower [of "''profile''", simplified]
      cv500_includes_lower [of "''achievements''", simplified]
      cv500_includes_lower [of "''accomplishments''", simplified]
    by code_simp+
  have "str_includes cvHead ''-''" by code_simp
  then have b: "str_includes cv500 ''-''" unfolding cv500_def by (rule includes_append)
  then have b': "str_includes cv500 bullet \<or> str_includes cv500 ''-'' \<or> str_includes cv500 ''*''"
    by simp
  have "matchDate cvHead" by code_simp
  then have d: "matchDate cv500" unfolding cv500_def by (rule matchDate_append)
  have "5 < matchDigits cvHead" by code_simp
  with matchDigits_append [of cvHead cvFiller] have m: "5 < matchDigits cv500"
    by (simp add: cv500_def)
  have "extractKeywords cvHead = [''react'', ''python'', ''aws'', ''docker'']" by code_simp
  then have k: "extractKeywords cv500 = [''react'', ''python'', ''aws'', ''docker'']"
    by (simp only: cv500_keywords)
  then have k': "length (extractKeywords cv500) = 4" by simp
  from C7_ats_scenario [OF cv500_wordCount p1 p2 p3 n1 n2 n3 n4 b' d m k']
  have score: "basicAnalyzeCV_atsScore cv500 = 71" .
  from cv500_wordCount p1 p2 p3 n1 n2 n3 n4 b d m k score show ?thesis by (intro conjI)
qed

end
